theory Spec2Isabelle
  imports Main "HOL-Library.AList" "HOL-Library.Sublist"
begin

section \<open>Text primitives of the Python runtime\<close>

text \<open>
  Python text is modelled as \<open>string\<close>, a list of \<open>char\<close>: the code points 0 to 255.
  The character classes below are Python's on that range.
\<close>

definition isspace :: "char \<Rightarrow> bool" where
  \<comment> \<open>\<open>str.isspace\<close>: tab to carriage return, the four separators, space, NEL, NBSP.\<close>
  "isspace c =
     (let n = (of_char c :: nat)
      in (9 \<le> n \<and> n \<le> 13) \<or> (28 \<le> n \<and> n \<le> 32) \<or> n = 133 \<or> n = 160)"

definition is_hex :: "char \<Rightarrow> bool" where
  \<comment> \<open>the class \<open>[0-9A-Fa-f]\<close>\<close>
  "is_hex c =
     (let n = (of_char c :: nat)
      in (48 \<le> n \<and> n \<le> 57) \<or> (65 \<le> n \<and> n \<le> 70) \<or> (97 \<le> n \<and> n \<le> 102))"

definition is_word :: "char \<Rightarrow> bool" where
  \<comment> \<open>the class \<open>\w\<close> of a text pattern: alphanumeric code points and the underscore\<close>
  "is_word c =
     (let n = (of_char c :: nat)
      in (48 \<le> n \<and> n \<le> 57) \<or> (65 \<le> n \<and> n \<le> 90) \<or> n = 95 \<or> (97 \<le> n \<and> n \<le> 122)
         \<or> n = 170 \<or> n = 178 \<or> n = 179 \<or> n = 181 \<or> n = 185 \<or> n = 186
         \<or> (188 \<le> n \<and> n \<le> 190) \<or> (192 \<le> n \<and> n \<le> 214)
         \<or> (216 \<le> n \<and> n \<le> 246) \<or> (248 \<le> n \<and> n \<le> 255))"

definition strip_with :: "(char \<Rightarrow> bool) \<Rightarrow> string \<Rightarrow> string" where
  \<comment> \<open>drop every leading and every trailing character of the class\<close>
  "strip_with p s = rev (dropWhile p (rev (dropWhile p s)))"

definition strip :: "string \<Rightarrow> string" where
  \<comment> \<open>\<open>s.strip()\<close>\<close>
  "strip s = strip_with isspace s"

definition strip_chars :: "string \<Rightarrow> string \<Rightarrow> string" where
  \<comment> \<open>\<open>s.strip(chars)\<close>\<close>
  "strip_chars cs s = strip_with (\<lambda>c. c \<in> set cs) s"

function split_from :: "string \<Rightarrow> string \<Rightarrow> string \<Rightarrow> string list" where
  "split_from sep cur [] = [cur]"
| "split_from sep cur (c # s) =
     (if sep \<noteq> [] \<and> prefix sep (c # s)
      then cur # split_from sep [] (drop (length sep) (c # s))
      else split_from sep (cur @ [c]) s)"
  by pat_completeness auto
termination
  by (relation "measure (\<lambda>(sep, cur, s). length s)") auto

definition split :: "string \<Rightarrow> string \<Rightarrow> string list" where
  \<comment> \<open>\<open>s.split(sep)\<close> for a separator that is not empty (the two in the source are constants)\<close>
  "split sep s = split_from sep [] s"

fun join :: "string \<Rightarrow> string list \<Rightarrow> string" where
  \<comment> \<open>\<open>sep.join(parts)\<close>\<close>
  "join sep [] = []"
| "join sep [x] = x"
| "join sep (x # y # ys) = x @ sep @ join sep (y # ys)"

section \<open>The router's brace format (ddwrt.py)\<close>

text \<open>
  \<open>_DDWRT_DATA_REGEX = \{(\w+)::([^\}]*)\}\<close>. A match attempt at the start of a text:
  an open brace, the longest run of word characters (at least one), two colons, the
  longest run of characters other than the close brace, and the close brace. Giving back
  characters of either run cannot help the engine: the character after a shorter run
  would be a word character where a colon is needed, or a character other than the
  close brace where the close brace is needed. The result is the two groups and the text
  after the match.
\<close>

definition brace_match :: "string \<Rightarrow> ((string \<times> string) \<times> string) option" where
  "brace_match s =
     (case s of
        [] \<Rightarrow> None
      | c # s1 \<Rightarrow>
          if c \<noteq> CHR ''{'' then None
          else let key = takeWhile is_word s1; s2 = dropWhile is_word s1
               in if key = [] then None
                  else (case s2 of
                          a # b # s3 \<Rightarrow>
                            if a = CHR '':'' \<and> b = CHR '':''
                            then let val = takeWhile (\<lambda>x. x \<noteq> CHR ''}'') s3;
                                     s4 = dropWhile (\<lambda>x. x \<noteq> CHR ''}'') s3
                                 in (case s4 of [] \<Rightarrow> None | _ # rest \<Rightarrow> Some ((key, val), rest))
                            else None
                        | _ \<Rightarrow> None))"

lemma brace_match_shorter:
  "brace_match s = Some (kv, rest) \<Longrightarrow> length rest < length s"
proof -
  assume m: "brace_match s = Some (kv, rest)"
  then obtain c s1 where s: "s = c # s1"
    by (cases s) (auto simp: brace_match_def)
  let ?s2 = "dropWhile is_word s1"
  from m s obtain a b s3 where s2: "?s2 = a # b # s3"
    by (auto simp: brace_match_def Let_def split: if_splits list.splits)
  let ?s4 = "dropWhile (\<lambda>x. x \<noteq> CHR ''}'') s3"
  from m s s2 obtain d where s4: "?s4 = d # rest"
    by (auto simp: brace_match_def Let_def split: if_splits list.splits)
  have "length ?s4 \<le> length s3"
    by (rule length_dropWhile_le)
  moreover have "length ?s2 \<le> length s1"
    by (rule length_dropWhile_le)
  ultimately show ?thesis
    using s s2 s4 by simp
qed

text \<open>
  \<open>findall\<close>: the matches from left to right, none overlapping; after a match the scan
  resumes behind it, and where no match starts it moves one character on.
\<close>

function findall :: "string \<Rightarrow> (string \<times> string) list" where
  "findall [] = []"
| "findall (c # s) =
     (case brace_match (c # s) of
        Some (kv, rest) \<Rightarrow> kv # findall rest
      | None \<Rightarrow> findall s)"
  by pat_completeness auto
termination
  by (relation "measure length") (auto dest: brace_match_shorter)

type_synonym dict = "(string \<times> string) list"

text \<open>
  A Python dict is an association list with distinct keys: storing under a key that is
  present replaces its value, storing under a new key appends the entry.
\<close>

definition parse_ddwrt_response :: "string \<Rightarrow> dict" where
  \<comment> \<open>\<open>_parse_ddwrt_response\<close>: the dict comprehension stores the pairs in match order\<close>
  "parse_ddwrt_response data_str = fold (\<lambda>(key, val). AList.update key val) (findall data_str) []"

definition token :: "string \<Rightarrow> string \<Rightarrow> string" where
  \<comment> \<open>the text \<open>{key::val}\<close>, used to state what the parser finds\<close>
  "token k v = CHR ''{'' # k @ '':'' @ '':'' @ v @ ''}''"

section \<open>The hardware-address pattern (both files)\<close>

text \<open>
  \<open>(([0-9A-Fa-f]{1,2}\:){5}[0-9A-Fa-f]{1,2})\<close>. One repetition of the inner group at the
  start of a text: two hex digits and a colon, else one hex digit and a colon (the
  engine tries the longer run first; the two cases exclude each other, since the second
  character is a hex digit in one and a colon in the other, so no later failure is
  repaired by going back). The result is the matched text and the rest.
\<close>

fun hex_colon :: "string \<Rightarrow> (string \<times> string) option" where
  "hex_colon (a # b # c # s) =
     (if is_hex a \<and> is_hex b \<and> c = CHR '':'' then Some ([a, b, c], s)
      else if is_hex a \<and> b = CHR '':'' then Some ([a, b], c # s)
      else None)"
| "hex_colon [a, b] = (if is_hex a \<and> b = CHR '':'' then Some ([a, b], []) else None)"
| "hex_colon [a] = None"
| "hex_colon [] = None"

fun hex_colons :: "nat \<Rightarrow> string \<Rightarrow> (string \<times> string) option" where
  "hex_colons 0 s = Some ([], s)"
| "hex_colons (Suc n) s =
     (case hex_colon s of
        None \<Rightarrow> None
      | Some (g, r) \<Rightarrow>
          (case hex_colons n r of None \<Rightarrow> None | Some (m, r') \<Rightarrow> Some (g @ m, r')))"

fun hex_tail :: "string \<Rightarrow> string option" where
  \<comment> \<open>the last group \<open>[0-9A-Fa-f]{1,2}\<close>: two hex digits when there are two, else one\<close>
  "hex_tail (a # b # s) =
     (if is_hex a \<and> is_hex b then Some [a, b] else if is_hex a then Some [a] else None)"
| "hex_tail [a] = (if is_hex a then Some [a] else None)"
| "hex_tail [] = None"

definition mac_match :: "string \<Rightarrow> string option" where
  \<comment> \<open>\<open>_MAC_REGEX.match(item)\<close>: the match anchored at the start, as its text (group 0)\<close>
  "mac_match s =
     (case hex_colons (Suc (Suc (Suc (Suc (Suc 0))))) s of
        None \<Rightarrow> None
      | Some (m, r) \<Rightarrow> (case hex_tail r of None \<Rightarrow> None | Some t \<Rightarrow> Some (m @ t)))"

fun mac_search :: "string \<Rightarrow> string option" where
  \<comment> \<open>\<open>re.search\<close> with the same pattern: the match at the leftmost position that has one\<close>
  "mac_search [] = None"
| "mac_search (c # s) = (case mac_match (c # s) of Some m \<Rightarrow> Some m | None \<Rightarrow> mac_search s)"

definition upper_char :: "char \<Rightarrow> char" where
  \<comment> \<open>\<open>str.upper\<close> on one character: the letters a to z, and the accented small letters
      whose capital is 32 code points below (the capitals of code points 181, 223 and 255
      lie beyond 255; hardware addresses never hold them)\<close>
  "upper_char c =
     (let n = (of_char c :: nat)
      in if (97 \<le> n \<and> n \<le> 122) \<or> (224 \<le> n \<and> n \<le> 246) \<or> (248 \<le> n \<and> n \<le> 254)
         then char_of (n - 32) else c)"

definition upper :: "string \<Rightarrow> string" where
  "upper s = map upper_char s"

section \<open>The capabilities the scanners call\<close>

datatype request_error = Timeout | ConnectionError

datatype http_outcome = Raises request_error | Response nat string

record host_info =
  state :: string
  hostnames :: "string list"
  addr_mac :: "string option"

datatype nmap_error = PortScannerError | OSError

datatype probe_outcome = ScanRaises nmap_error | Scan "(string \<times> host_info) list"

datatype arp_outcome = PopenRaises | Prints string

text \<open>
  What \<open>requests.get\<close> does: it raises (\<open>Timeout\<close>, or \<open>ConnectionError\<close> when the
  connection is refused) or returns a response with a status code and a text.
  What \<open>PortScanner()\<close> does: it raises (\<open>PortScannerError\<close> when the nmap program is
  not found) or constructs the scanner.
  What \<open>PortScanner.scan\<close> does: it raises or returns the \<open>scan\<close> table, here the list
  of its items: the address of a host with its \<open>status.state\<close>, the names of its
  \<open>hostnames\<close> entries and \<open>addresses.get('mac')\<close>.
  What \<open>subprocess.Popen\<close> with \<open>communicate\<close> does for \<open>arp\<close>: it raises \<open>OSError\<close>
  (the program cannot be started) or gives the text the process printed.

  The world of a scanner is the clock, the outcome of each request (by its number, URL
  and credentials), of each construction of a port scanner (by its number), of each probe
  (by its number, hosts and options, with the time the probe takes) and of each \<open>arp\<close>
  call (by its number and address), and the logs of the calls made so far; requests,
  constructions and probes are logged with the clock's reading. Times are in
  microseconds, the resolution of \<open>datetime\<close> and \<open>timedelta\<close>.
\<close>

record world =
  clock :: int
  reply :: "nat \<Rightarrow> string \<Rightarrow> string \<times> string \<Rightarrow> http_outcome"
  sent :: "(int \<times> string) list"
  scanner_new :: "nat \<Rightarrow> nmap_error option"
  made :: "int list"
  probe :: "nat \<Rightarrow> string \<Rightarrow> string \<Rightarrow> probe_outcome \<times> int"
  probes :: "(int \<times> string \<times> string) list"
  arp_out :: "nat \<Rightarrow> string \<Rightarrow> arp_outcome"
  arps :: "string list"

section \<open>The throttle\<close>

text \<open>
  Modelled from the spec: the decorator \<open>homeassistant.util.Throttle\<close> is not among the
  sources. The spec (4.1, 3): a refresh is attempted only if
  \<open>now - lastRefreshAt >= minInterval\<close>, otherwise the call is a no-op that returns the
  last known success/failure status; ThrottleState is \<open>lastRefreshAt\<close> with the interval,
  and no two refresh executions begin less than the interval apart.
\<close>

record throttle_state =
  lastRefreshAt :: "int option"
  lastStatus :: bool

definition throttle_init :: throttle_state where
  \<comment> \<open>Modelled from the spec: no refresh has run yet\<close>
  "throttle_init = \<lparr>lastRefreshAt = None, lastStatus = False\<rparr>"

definition due :: "int \<Rightarrow> throttle_state \<Rightarrow> int \<Rightarrow> bool" where
  \<comment> \<open>Modelled from the spec: \<open>now - lastRefreshAt >= minInterval\<close>, or no refresh yet\<close>
  "due min_interval ts now =
     (case lastRefreshAt ts of None \<Rightarrow> True | Some t \<Rightarrow> min_interval \<le> now - t)"

definition MIN_TIME_BETWEEN_SCANS :: int where
  \<comment> \<open>\<open>timedelta(seconds=5)\<close>\<close>
  "MIN_TIME_BETWEEN_SCANS = 5 * 1000000"

section \<open>The router-poll scanner (ddwrt.py)\<close>

text \<open>
  \<open>last_results\<close> starts as the empty dict and is a list from the first refresh that
  clears it; both are the empty collection here. The lock is not modelled: the scanner
  is run by one caller at a time. Logging changes no state and is left out.
\<close>

record ddwrt_scanner =
  host :: string
  username :: string
  password :: string
  last_results :: "string list"
  mac2name :: dict
  success_init :: bool
  throttle :: throttle_state

definition wireless_url :: "ddwrt_scanner \<Rightarrow> string" where
  "wireless_url sc = ''http://'' @ host sc @ ''/Status_Wireless.live.asp''"

definition lan_url :: "ddwrt_scanner \<Rightarrow> string" where
  "lan_url sc = ''http://'' @ host sc @ ''/Status_Lan.live.asp''"

definition get_ddwrt_data ::
  "string \<Rightarrow> ddwrt_scanner \<Rightarrow> world \<Rightarrow> (request_error + dict option) \<times> world" where
  \<comment> \<open>only \<open>Timeout\<close> is caught; status 200 is parsed; 401 and every other status give None\<close>
  "get_ddwrt_data url sc w =
     (let w' = w\<lparr>sent := sent w @ [(clock w, url)]\<rparr>
      in case reply w (length (sent w)) url (username sc, password sc) of
           Raises Timeout \<Rightarrow> (Inr None, w')
         | Raises ConnectionError \<Rightarrow> (Inl ConnectionError, w')
         | Response status_code text \<Rightarrow>
             if status_code = 200 then (Inr (Some (parse_ddwrt_response text)), w')
             else if status_code = 401 then (Inr None, w')
             else (Inr None, w'))"

definition active_macs :: "string \<Rightarrow> string list" where
  \<comment> \<open>lines 160 to 164 of \<open>_update_info\<close>\<close>
  "active_macs active_clients =
     (let clean_str = strip_chars [CHR 0x27] (strip active_clients);
          elements = split [CHR 0x27, CHR '','', CHR 0x27] clean_str
      in filter (\<lambda>item. mac_match item \<noteq> None) elements)"

definition update_info_body ::
  "ddwrt_scanner \<Rightarrow> world \<Rightarrow> (request_error + bool) \<times> ddwrt_scanner \<times> world" where
  \<comment> \<open>the body of \<open>_update_info\<close>\<close>
  "update_info_body sc w =
     (if \<not> success_init sc then (Inr False, sc, w)
      else case get_ddwrt_data (wireless_url sc) sc w of
             (Inl e, w') \<Rightarrow> (Inl e, sc, w')
           | (Inr None, w') \<Rightarrow> (Inr False, sc, w')
           | (Inr (Some data), w') \<Rightarrow>
               if data = [] then (Inr False, sc, w')
               else let sc1 = sc\<lparr>last_results := []\<rparr>
                    in (case map_of data ''active_wireless'' of
                          None \<Rightarrow> (Inr False, sc1, w')
                        | Some active_clients \<Rightarrow>
                            if active_clients = [] then (Inr False, sc1, w')
                            else (Inr True,
                                  sc1\<lparr>last_results := last_results sc1 @ active_macs active_clients\<rparr>,
                                  w')))"

definition update_info ::
  "ddwrt_scanner \<Rightarrow> world \<Rightarrow> (request_error + bool) \<times> ddwrt_scanner \<times> world" where
  \<comment> \<open>\<open>_update_info\<close> under \<open>@Throttle(MIN_TIME_BETWEEN_SCANS)\<close>. Modelled from the spec:
      the wrapper, which notes when the execution begins and keeps its status\<close>
  "update_info sc w =
     (if due MIN_TIME_BETWEEN_SCANS (throttle sc) (clock w)
      then let sc0 = sc\<lparr>throttle := (throttle sc)\<lparr>lastRefreshAt := Some (clock w)\<rparr>\<rparr>
           in (case update_info_body sc0 w of
                 (Inl e, sc', w') \<Rightarrow> (Inl e, sc', w')
               | (Inr ok, sc', w') \<Rightarrow>
                   (Inr ok, sc'\<lparr>throttle := (throttle sc')\<lparr>lastStatus := ok\<rparr>\<rparr>, w'))
      else (Inr (lastStatus (throttle sc)), sc, w))"

definition scan_devices ::
  "ddwrt_scanner \<Rightarrow> world \<Rightarrow> (request_error + string list) \<times> ddwrt_scanner \<times> world" where
  "scan_devices sc w =
     (case update_info sc w of
        (Inl e, sc', w') \<Rightarrow> (Inl e, sc', w')
      | (Inr ok, sc', w') \<Rightarrow> (Inr (last_results sc'), sc', w'))"

definition lease_elements :: "string \<Rightarrow> string list" where
  \<comment> \<open>lines 115 and 116 of \<open>get_device_name\<close>: the cleaned element list\<close>
  "lease_elements dhcp_leases =
     (let cleaned_str = strip_chars [CHR 0x22] (strip dhcp_leases)
      in split [CHR 0x22, CHR '','', CHR 0x22] cleaned_str)"

definition lease_index :: "string list \<Rightarrow> dict" where
  \<comment> \<open>lines 117 to 126: the index built from the elements, starting from the empty dict.
      \<open>int(len(elements)/5)\<close> is the quotient; the guard of line 124 is kept as written\<close>
  "lease_index elements =
     (let num_clients = length elements div 5
      in fold (\<lambda>idx m.
                 let mac_index = idx * 5 + 2
                 in if mac_index < length elements
                    then AList.update (elements ! mac_index) (elements ! (idx * 5)) m
                    else m)
              [0..<num_clients] [])"

definition lease_names :: "string \<Rightarrow> dict" where
  "lease_names dhcp_leases = lease_index (lease_elements dhcp_leases)"

definition get_device_name ::
  "ddwrt_scanner \<Rightarrow> world \<Rightarrow> string \<Rightarrow> (request_error + string option) \<times> ddwrt_scanner \<times> world" where
  "get_device_name sc w device =
     (if map_of (mac2name sc) device = None
      then (case get_ddwrt_data (lan_url sc) sc w of
              (Inl e, w') \<Rightarrow> (Inl e, sc, w')
            | (Inr None, w') \<Rightarrow> (Inr None, sc, w')
            | (Inr (Some data), w') \<Rightarrow>
                if data = [] then (Inr None, sc, w')
                else (case map_of data ''dhcp_leases'' of
                        None \<Rightarrow> (Inr None, sc, w')
                      | Some dhcp_leases \<Rightarrow>
                          if dhcp_leases = [] then (Inr None, sc, w')
                          else let sc' = sc\<lparr>mac2name := lease_names dhcp_leases\<rparr>
                               in (Inr (map_of (mac2name sc') device), sc', w')))
      else (Inr (map_of (mac2name sc) device), sc, w))"

definition ddwrt_init ::
  "string \<Rightarrow> string \<Rightarrow> string \<Rightarrow> world \<Rightarrow> (request_error + ddwrt_scanner) \<times> world" where
  \<comment> \<open>\<open>__init__\<close>: the test request decides \<open>success_init\<close>\<close>
  "ddwrt_init h u p w =
     (let sc = \<lparr>host = h, username = u, password = p, last_results = [], mac2name = [],
                success_init = False, throttle = throttle_init\<rparr>
      in case get_ddwrt_data (wireless_url sc) sc w of
           (Inl e, w') \<Rightarrow> (Inl e, w')
         | (Inr data, w') \<Rightarrow> (Inr (sc\<lparr>success_init := (data \<noteq> None)\<rparr>), w'))"

section \<open>The sweep scanner (nmap_tracker.py)\<close>

record device =
  mac :: string
  name :: string
  ip :: string
  last_update :: int

record nmap_scanner =
  hosts :: string
  home_interval :: int
  nmap_last_results :: "device list"
  nmap_success_init :: bool
  nmap_throttle :: throttle_state

definition arp :: "string \<Rightarrow> world \<Rightarrow> (nmap_error + string option) \<times> world" where
  \<comment> \<open>\<open>_arp\<close>: the first hardware address in what the process printed, if any; a
      \<open>Popen\<close> that raises is not caught\<close>
  "arp ip_address w =
     (let w' = w\<lparr>arps := arps w @ [ip_address]\<rparr>
      in case arp_out w (length (arps w)) ip_address of
           PopenRaises \<Rightarrow> (Inl OSError, w')
         | Prints out \<Rightarrow> (Inr (mac_search out), w'))"

definition host_name :: "string \<Rightarrow> host_info \<Rightarrow> string" where
  \<comment> \<open>line 142: the first host name, else the address\<close>
  "host_name ipv4 info = (case hostnames info of [] \<Rightarrow> ipv4 | h # _ \<Rightarrow> h)"

definition scan_item ::
  "int \<Rightarrow> string \<times> host_info \<Rightarrow> device list \<times> world \<Rightarrow> (nmap_error + device list) \<times> world" where
  \<comment> \<open>one round of the loop of lines 139 to 147\<close>
  "scan_item now item acc =
     (case (item, acc) of
        ((ipv4, info), (found, w)) \<Rightarrow>
          if state info \<noteq> ''up'' then (Inr found, w)
          else let nm = host_name ipv4 info;
                   (m, w') = (case addr_mac info of
                                None \<Rightarrow> arp ipv4 w
                              | Some a \<Rightarrow> if a \<noteq> [] then (Inr (Some a), w) else arp ipv4 w)
               in (case m of
                     Inl e \<Rightarrow> (Inl e, w')
                   | Inr None \<Rightarrow> (Inr found, w')
                   | Inr (Some a) \<Rightarrow>
                       (Inr (found @ [\<lparr>mac = upper a, name = nm, ip = ipv4, last_update = now\<rparr>]),
                        w')))"

fun scan_items ::
  "int \<Rightarrow> (string \<times> host_info) list \<Rightarrow> device list \<times> world \<Rightarrow> (nmap_error + device list) \<times> world" where
  \<comment> \<open>the loop: an exception in a round ends it\<close>
  "scan_items now [] acc = (Inr (fst acc), snd acc)"
| "scan_items now (item # items) acc =
     (case scan_item now item acc of
        (Inl e, w') \<Rightarrow> (Inl e, w')
      | (Inr found, w') \<Rightarrow> scan_items now items (found, w'))"

definition carried_over :: "nmap_scanner \<Rightarrow> int \<Rightarrow> device list" where
  \<comment> \<open>lines 121 to 131: the records kept from the last results\<close>
  "carried_over sc now =
     (if home_interval sc \<noteq> 0
      then let boundary = now - home_interval sc
           in filter (\<lambda>d. boundary < last_update d) (nmap_last_results sc)
      else [])"

definition nmap_options :: "device list \<Rightarrow> string" where
  \<comment> \<open>lines 119 and 125 to 129: the arguments of the probe\<close>
  "nmap_options kept =
     (if kept \<noteq> [] then ''-F --host-timeout 5'' @ '' --exclude '' @ join '','' (map ip kept)
      else ''-F --host-timeout 5'')"

definition nmap_update_info_body ::
  "nmap_scanner \<Rightarrow> world \<Rightarrow> (nmap_error + bool) \<times> nmap_scanner \<times> world" where
  \<comment> \<open>the body of \<open>_update_info\<close>: the scanner is constructed at line 117, before the
      \<open>try\<close> of lines 133 to 136, which catches \<open>PortScannerError\<close> of the scan alone\<close>
  "nmap_update_info_body sc w =
     (let w0 = w\<lparr>made := made w @ [clock w]\<rparr>
      in case scanner_new w (length (made w)) of
           Some e \<Rightarrow> (Inl e, sc, w0)
         | None \<Rightarrow>
             let kept = carried_over sc (clock w);
                 options = nmap_options kept;
                 (outcome, elapsed) = probe w (length (probes w)) (hosts sc) options;
                 w1 = w0\<lparr>probes := probes w @ [(clock w, hosts sc, options)],
                        clock := clock w + elapsed\<rparr>
             in case outcome of
                  ScanRaises e \<Rightarrow>
                    if e = PortScannerError then (Inr False, sc, w1) else (Inl e, sc, w1)
                | Scan items \<Rightarrow>
                    (case scan_items (clock w1) items (kept, w1) of
                       (Inl e, w2) \<Rightarrow> (Inl e, sc, w2)
                     | (Inr found, w2) \<Rightarrow> (Inr True, sc\<lparr>nmap_last_results := found\<rparr>, w2)))"

definition nmap_update_info ::
  "nmap_scanner \<Rightarrow> world \<Rightarrow> (nmap_error + bool) \<times> nmap_scanner \<times> world" where
  \<comment> \<open>\<open>_update_info\<close> under \<open>@Throttle(MIN_TIME_BETWEEN_SCANS)\<close>. Modelled from the spec:
      the wrapper, as for the router-poll scanner\<close>
  "nmap_update_info sc w =
     (if due MIN_TIME_BETWEEN_SCANS (nmap_throttle sc) (clock w)
      then let sc0 = sc\<lparr>nmap_throttle := (nmap_throttle sc)\<lparr>lastRefreshAt := Some (clock w)\<rparr>\<rparr>
           in (case nmap_update_info_body sc0 w of
                 (Inl e, sc', w') \<Rightarrow> (Inl e, sc', w')
               | (Inr ok, sc', w') \<Rightarrow>
                   (Inr ok, sc'\<lparr>nmap_throttle := (nmap_throttle sc')\<lparr>lastStatus := ok\<rparr>\<rparr>, w'))
      else (Inr (lastStatus (nmap_throttle sc)), sc, w))"

definition nmap_scan_devices ::
  "nmap_scanner \<Rightarrow> world \<Rightarrow> (nmap_error + string list) \<times> nmap_scanner \<times> world" where
  "nmap_scan_devices sc w =
     (case nmap_update_info sc w of
        (Inl e, sc', w') \<Rightarrow> (Inl e, sc', w')
      | (Inr ok, sc', w') \<Rightarrow> (Inr (map mac (nmap_last_results sc')), sc', w'))"

definition nmap_get_device_name :: "nmap_scanner \<Rightarrow> string \<Rightarrow> string option" where
  "nmap_get_device_name sc m =
     (case filter (\<lambda>d. mac d = m) (nmap_last_results sc) of
        [] \<Rightarrow> None
      | d # _ \<Rightarrow> Some (name d))"

definition nmap_init :: "string \<Rightarrow> int \<Rightarrow> world \<Rightarrow> (nmap_error + nmap_scanner) \<times> world" where
  \<comment> \<open>\<open>__init__\<close>, given the hosts and the minutes of the home interval (0 when not configured)\<close>
  "nmap_init hs minutes w =
     (let sc = \<lparr>hosts = hs, home_interval = minutes * 60 * 1000000, nmap_last_results = [],
                nmap_success_init = False, nmap_throttle = throttle_init\<rparr>
      in case nmap_update_info sc w of
           (Inl e, sc', w') \<Rightarrow> (Inl e, w')
         | (Inr ok, sc', w') \<Rightarrow> (Inr (sc'\<lparr>nmap_success_init := ok\<rparr>), w'))"

section \<open>Properties of the brace parser\<close>

lemma takeWhile_until: "c \<notin> set v \<Longrightarrow> takeWhile (\<lambda>x. x \<noteq> c) (v @ c # r) = v"
  by (induction v) auto

lemma dropWhile_until: "c \<notin> set v \<Longrightarrow> dropWhile (\<lambda>x. x \<noteq> c) (v @ c # r) = c # r"
  by (induction v) auto

lemma not_word_colon: "\<not> is_word CHR '':''"
  by (simp add: is_word_def)

lemma brace_match_token:
  assumes "k \<noteq> []" and "\<forall>c\<in>set k. is_word c" and "CHR ''}'' \<notin> set v"
  shows "brace_match (token k v @ rest) = Some ((k, v), rest)"
proof -
  have tk: "takeWhile is_word (k @ CHR '':'' # CHR '':'' # v @ CHR ''}'' # rest) = k"
    using assms(2) by (simp add: not_word_colon)
  have dk: "dropWhile is_word (k @ CHR '':'' # CHR '':'' # v @ CHR ''}'' # rest)
             = CHR '':'' # CHR '':'' # v @ CHR ''}'' # rest"
    using assms(2) by (simp add: not_word_colon)
  have tv: "takeWhile (\<lambda>x. x \<noteq> CHR ''}'') (v @ CHR ''}'' # rest) = v"
    using assms(3) by (rule takeWhile_until)
  have dv: "dropWhile (\<lambda>x. x \<noteq> CHR ''}'') (v @ CHR ''}'' # rest) = CHR ''}'' # rest"
    using assms(3) by (rule dropWhile_until)
  show ?thesis
    using assms(1) by (simp add: brace_match_def token_def tk dk tv dv)
qed

lemma brace_match_sound:
  assumes m: "brace_match s = Some ((k, v), rest)"
  shows "s = token k v @ rest \<and> k \<noteq> [] \<and> (\<forall>c\<in>set k. is_word c) \<and> CHR ''}'' \<notin> set v"
proof -
  from m obtain s1 where s: "s = CHR ''{'' # s1"
    by (cases s) (auto simp: brace_match_def split: if_splits)
  let ?s2 = "dropWhile is_word s1"
  from m s have k: "k = takeWhile is_word s1" and kne: "k \<noteq> []"
    by (auto simp: brace_match_def Let_def split: if_splits list.splits)
  from m s obtain s3 where s2: "?s2 = CHR '':'' # CHR '':'' # s3"
    by (auto simp: brace_match_def Let_def split: if_splits list.splits)
  let ?s4 = "dropWhile (\<lambda>x. x \<noteq> CHR ''}'') s3"
  from m s s2 have v: "v = takeWhile (\<lambda>x. x \<noteq> CHR ''}'') s3"
    by (auto simp: brace_match_def Let_def split: if_splits list.splits)
  from m s s2 obtain d where s4: "?s4 = d # rest"
    by (auto simp: brace_match_def Let_def split: if_splits list.splits)
  have d: "d = CHR ''}''"
    using hd_dropWhile[of "\<lambda>x. x \<noteq> CHR ''}''" s3] s4 by auto
  have "s1 = k @ ?s2"
    using k by simp
  moreover have "s3 = v @ ?s4"
    using v by simp
  ultimately have "s = token k v @ rest"
    using s s2 s4 d by (simp add: token_def)
  moreover have "\<forall>c\<in>set k. is_word c"
    using k by (auto dest: set_takeWhileD)
  moreover have "CHR ''}'' \<notin> set v"
    using v by (auto dest: set_takeWhileD)
  ultimately show ?thesis
    using kne by simp
qed

lemma brace_match_not_brace: "c \<noteq> CHR ''{'' \<Longrightarrow> brace_match (c # s) = None"
  by (simp add: brace_match_def)

lemma findall_junk: "CHR ''{'' \<notin> set junk \<Longrightarrow> findall (junk @ s) = findall s"
  by (induction junk) (auto simp: brace_match_not_brace)

lemma findall_token:
  assumes "k \<noteq> []" and "\<forall>c\<in>set k. is_word c" and "CHR ''}'' \<notin> set v"
  shows "findall (token k v @ s) = (k, v) # findall s"
proof -
  have "token k v @ s = CHR ''{'' # (k @ '':'' @ '':'' @ v @ ''}'' @ s)"
    by (simp add: token_def)
  moreover have "brace_match (token k v @ s) = Some ((k, v), s)"
    using assms by (rule brace_match_token)
  ultimately show ?thesis
    by (metis findall.simps(2) option.simps(5) case_prod_conv)
qed

lemma sublist_behind: "sublist xs ys \<Longrightarrow> sublist xs (zs @ ys)"
  by (auto simp: sublist_def) (metis append.assoc)

lemma findall_sound:
  "(k, v) \<in> set (findall s) \<Longrightarrow>
     k \<noteq> [] \<and> (\<forall>c\<in>set k. is_word c) \<and> CHR ''}'' \<notin> set v \<and> sublist (token k v) s"
proof (induction s rule: findall.induct)
  case 1
  then show ?case by simp
next
  case (2 c s)
  show ?case
  proof (cases "brace_match (c # s)")
    case None
    with 2 have "k \<noteq> [] \<and> (\<forall>c\<in>set k. is_word c) \<and> CHR ''}'' \<notin> set v \<and> sublist (token k v) s"
      by simp
    then show ?thesis
      by (simp add: sublist_Cons_right)
  next
    case (Some a)
    then obtain k' v' rest where a: "a = ((k', v'), rest)"
      by (cases a) auto
    have m: "brace_match (c # s) = Some ((k', v'), rest)"
      using Some a by simp
    have cs: "c # s = token k' v' @ rest"
      and wf: "k' \<noteq> [] \<and> (\<forall>c\<in>set k'. is_word c) \<and> CHR ''}'' \<notin> set v'"
      using brace_match_sound[OF m] by simp_all
    from "2.prems" m have "(k, v) = (k', v') \<or> (k, v) \<in> set (findall rest)"
      by simp
    then show ?thesis
    proof
      assume e: "(k, v) = (k', v')"
      have "sublist (token k' v') (token k' v' @ rest)"
        by (rule sublist_append_rightI)
      then show ?thesis
        using e wf cs by simp
    next
      assume "(k, v) \<in> set (findall rest)"
      then have ih: "k \<noteq> [] \<and> (\<forall>c\<in>set k. is_word c) \<and> CHR ''}'' \<notin> set v \<and> sublist (token k v) rest"
        using "2.IH"(2)[OF m refl] by simp
      then have "sublist (token k v) (token k' v' @ rest)"
        by (simp add: sublist_behind)
      then show ?thesis
        using ih cs by simp
    qed
  qed
qed

lemma map_of_fold_update:
  "map_of (fold (\<lambda>(key, val). AList.update key val) xs acc) = map_of (rev xs @ acc)"
proof (induction xs arbitrary: acc)
  case Nil
  then show ?case by simp
next
  case (Cons x xs)
  obtain k v where x: "x = (k, v)" by (cases x)
  have "map_of (fold (\<lambda>(key, val). AList.update key val) (x # xs) acc)
        = map_of (rev xs @ AList.update k v acc)"
    using Cons.IH[of "AList.update k v acc"] x by simp
  also have "\<dots> = map_of (rev (x # xs) @ acc)"
    using x by (simp add: update_conv' map_add_def fun_eq_iff split: option.splits)
  finally show ?case .
qed

lemma distinct_fold_update:
  "distinct (map fst acc) \<Longrightarrow> distinct (map fst (fold (\<lambda>(key, val). AList.update key val) xs acc))"
  by (induction xs arbitrary: acc) (auto simp: distinct_update)

lemma map_of_parse: "map_of (parse_ddwrt_response s) = map_of (rev (findall s))"
  by (simp add: parse_ddwrt_response_def map_of_fold_update)

lemma distinct_parse: "distinct (map fst (parse_ddwrt_response s))"
  by (simp add: parse_ddwrt_response_def distinct_fold_update)

lemma parse_last_wins:
  assumes "findall s = xs @ (k, v) # ys" and "k \<notin> fst ` set ys"
  shows "map_of (parse_ddwrt_response s) k = Some v"
proof -
  have "map_of (rev ys) k = None"
    using assms(2) by (simp add: map_of_eq_None_iff)
  then show ?thesis
    using assms(1) by (simp add: map_of_parse map_add_def)
qed

lemma parse_empty_iff: "parse_ddwrt_response s = [] \<longleftrightarrow> findall s = []"
proof
  assume "parse_ddwrt_response s = []"
  then have "map_of (rev (findall s)) = Map.empty"
    using map_of_parse[of s] by simp
  then show "findall s = []"
    by (simp add: map_of_eq_empty_iff)
next
  assume "findall s = []"
  then show "parse_ddwrt_response s = []"
    by (simp add: parse_ddwrt_response_def)
qed

lemma brace_match_none_iff:
  "brace_match s = None \<longleftrightarrow>
     \<not> (\<exists>k v rest. k \<noteq> [] \<and> (\<forall>c\<in>set k. is_word c) \<and> CHR ''}'' \<notin> set v \<and> s = token k v @ rest)"
proof
  assume n: "brace_match s = None"
  show "\<not> (\<exists>k v rest. k \<noteq> [] \<and> (\<forall>c\<in>set k. is_word c) \<and> CHR ''}'' \<notin> set v \<and> s = token k v @ rest)"
  proof
    assume "\<exists>k v rest. k \<noteq> [] \<and> (\<forall>c\<in>set k. is_word c) \<and> CHR ''}'' \<notin> set v \<and> s = token k v @ rest"
    then obtain k v rest where "k \<noteq> []" "\<forall>c\<in>set k. is_word c" "CHR ''}'' \<notin> set v"
      and s: "s = token k v @ rest"
      by blast
    then have "brace_match (token k v @ rest) = Some ((k, v), rest)"
      by (intro brace_match_token)
    with n s show False
      by simp
  qed
next
  assume no: "\<not> (\<exists>k v rest. k \<noteq> [] \<and> (\<forall>c\<in>set k. is_word c) \<and> CHR ''}'' \<notin> set v \<and> s = token k v @ rest)"
  show "brace_match s = None"
  proof (cases "brace_match s")
    case None
    then show ?thesis .
  next
    case (Some a)
    obtain k v rest where "a = ((k, v), rest)"
      by (cases a) auto
    with Some have "brace_match s = Some ((k, v), rest)"
      by simp
    from brace_match_sound[OF this] no show ?thesis
      by blast
  qed
qed

lemma findall_skip:
  assumes "\<not> (\<exists>k v rest. k \<noteq> [] \<and> (\<forall>c\<in>set k. is_word c) \<and> CHR ''}'' \<notin> set v
             \<and> c # s = token k v @ rest)"
  shows "findall (c # s) = findall s"
proof -
  have "brace_match (c # s) = None"
    using assms brace_match_none_iff[of "c # s"] by blast
  then show ?thesis
    by simp
qed

lemma parse_example_pair:
  "parse_ddwrt_response ''{foo::bar}{baz::1,2,3}'' = [(''foo'', ''bar''), (''baz'', ''1,2,3'')]"
  by (simp add: parse_ddwrt_response_def brace_match_def is_word_def)

lemma parse_example_open: "parse_ddwrt_response ''{foo::bar'' = []"
  by (simp add: parse_ddwrt_response_def brace_match_def is_word_def)

lemma parse_example_stray:
  "parse_ddwrt_response ''{x{a::1}y}{{b::2,{3}{a:4}{a::5}'' = [(''a'', ''5''), (''b'', ''2,{3'')]"
  by (simp add: parse_ddwrt_response_def brace_match_def is_word_def)

text \<open>
  C6. The brace parser is a total function of the text (it returns a mapping for every
  input). The mapping it returns looks a key up as the last match with that key
  (\<open>map_of\<close> of the reversed match list), and its keys are distinct. The match list is
  fixed by three equations: the empty text has no match; a text that begins with a token
  open-brace, identifier (word characters, at least one), double-colon, value without a
  close brace, close-brace has that token as its first match, and the scan goes on behind
  it; at any other text, an open brace that starts no token included, the scan goes on
  one character later. So every match is a token that stands in the text, text without
  an open brace in front of the input is ignored, and a key's value is that of its last
  match. \<open>{foo::bar}{baz::1,2,3}\<close> parses to foo: bar, baz: 1,2,3, and the unterminated
  \<open>{foo::bar\<close> to the empty mapping.
\<close>

theorem parse_ddwrt_response_matches:
  "map_of (parse_ddwrt_response s) = map_of (rev (findall s))
   \<and> distinct (map fst (parse_ddwrt_response s))
   \<and> (\<forall>k v. (k, v) \<in> set (findall s) \<longrightarrow>
         k \<noteq> [] \<and> (\<forall>c\<in>set k. is_word c) \<and> CHR ''}'' \<notin> set v \<and> sublist (token k v) s)
   \<and> (CHR ''{'' \<notin> set junk \<longrightarrow> findall (junk @ s) = findall s)
   \<and> (key \<noteq> [] \<and> (\<forall>c\<in>set key. is_word c) \<and> CHR ''}'' \<notin> set val \<longrightarrow>
         findall (token key val @ s) = (key, val) # findall s)
   \<and> (findall s = xs @ (key, val) # ys \<and> key \<notin> fst ` set ys \<longrightarrow>
         map_of (parse_ddwrt_response s) key = Some val)
   \<and> parse_ddwrt_response ''{foo::bar}{baz::1,2,3}'' = [(''foo'', ''bar''), (''baz'', ''1,2,3'')]
   \<and> parse_ddwrt_response ''{foo::bar'' = []
   \<and> findall [] = []
   \<and> (\<not> (\<exists>k v rest. k \<noteq> [] \<and> (\<forall>c\<in>set k. is_word c) \<and> CHR ''}'' \<notin> set v
             \<and> ch # s = token k v @ rest) \<longrightarrow>
         findall (ch # s) = findall s)
   \<and> parse_ddwrt_response ''{x{a::1}y}{{b::2,{3}{a:4}{a::5}'' = [(''a'', ''5''), (''b'', ''2,{3'')]"
proof -
  have "\<forall>k v. (k, v) \<in> set (findall s) \<longrightarrow>
         k \<noteq> [] \<and> (\<forall>c\<in>set k. is_word c) \<and> CHR ''}'' \<notin> set v \<and> sublist (token k v) s"
    using findall_sound by blast
  moreover have "CHR ''{'' \<notin> set junk \<longrightarrow> findall (junk @ s) = findall s"
    by (simp add: findall_junk)
  moreover have "key \<noteq> [] \<and> (\<forall>c\<in>set key. is_word c) \<and> CHR ''}'' \<notin> set val \<longrightarrow>
         findall (token key val @ s) = (key, val) # findall s"
    using findall_token by blast
  moreover have "findall s = xs @ (key, val) # ys \<and> key \<notin> fst ` set ys \<longrightarrow>
         map_of (parse_ddwrt_response s) key = Some val"
    using parse_last_wins by blast
  moreover have "\<not> (\<exists>k v rest. k \<noteq> [] \<and> (\<forall>c\<in>set k. is_word c) \<and> CHR ''}'' \<notin> set v
             \<and> ch # s = token k v @ rest) \<longrightarrow>
         findall (ch # s) = findall s"
    using findall_skip[of ch s] by blast
  moreover have "findall [] = []"
    by simp
  ultimately show ?thesis
    using map_of_parse distinct_parse parse_example_pair parse_example_open parse_example_stray
    by blast
qed

lemma stray_brace_no_token:
  "\<not> (\<exists>k v rest. k \<noteq> [] \<and> (\<forall>c\<in>set k. is_word c) \<and> CHR ''}'' \<notin> set v
        \<and> CHR ''{'' # ''x{a::1}x{a::2}'' = token k v @ rest)"
proof -
  have "brace_match (CHR ''{'' # ''x{a::1}x{a::2}'') = None"
    by (simp add: brace_match_def is_word_def)
  then show ?thesis
    using brace_match_none_iff[of "CHR ''{'' # ''x{a::1}x{a::2}''"] by blast
qed

theorem parse_ddwrt_response_matches_witness:
  "findall ''x{a::1}x{a::2}'' = [(''a'', ''1'')] @ (''a'', ''2'') # []
   \<and> ''a'' \<notin> fst ` set ([] :: (string \<times> string) list)
   \<and> map_of (parse_ddwrt_response ''x{a::1}x{a::2}'') ''a'' = Some ''2''
   \<and> CHR ''{'' \<notin> set ''zz''
   \<and> findall (''zz'' @ ''x{a::1}x{a::2}'') = findall ''x{a::1}x{a::2}''
   \<and> (''a'', ''2'') \<in> set (findall ''x{a::1}x{a::2}'')
   \<and> sublist (token ''a'' ''2'') ''x{a::1}x{a::2}''
   \<and> findall (token ''a'' ''2'' @ ''x{a::1}x{a::2}'') = (''a'', ''2'') # findall ''x{a::1}x{a::2}''
   \<and> findall (CHR ''{'' # ''x{a::1}x{a::2}'') = [(''a'', ''1''), (''a'', ''2'')]"
proof -
  have f: "findall ''x{a::1}x{a::2}'' = [(''a'', ''1'')] @ (''a'', ''2'') # []"
    by (simp add: brace_match_def is_word_def)
  have w: "''a'' \<noteq> [] \<and> (\<forall>c\<in>set ''a''. is_word c) \<and> CHR ''}'' \<notin> set ''2''"
    by (simp add: is_word_def)
  note t = parse_ddwrt_response_matches[of "''x{a::1}x{a::2}''" "''zz''" "''a''" "''2''"
      "[(''a'', ''1'')]" "[]" "CHR ''{''"]
  have "findall (CHR ''{'' # ''x{a::1}x{a::2}'') = findall ''x{a::1}x{a::2}''"
    using t stray_brace_no_token by blast
  then show ?thesis
    using f w t by simp
qed

section \<open>Properties of the lease table\<close>

definition lease_group :: "string list \<Rightarrow> nat \<Rightarrow> string \<times> string" where
  \<comment> \<open>the entry of group \<open>i\<close>: the address at offset 2, the name at offset 0\<close>
  "lease_group elements i = (elements ! (i * 5 + 2), elements ! (i * 5))"

lemma map_of_fold_update_on:
  "map_of (fold (\<lambda>i. AList.update (f i) (g i)) ns acc) = map_of (rev (map (\<lambda>i. (f i, g i)) ns) @ acc)"
proof (induction ns arbitrary: acc)
  case Nil
  then show ?case by simp
next
  case (Cons n ns)
  have "map_of (fold (\<lambda>i. AList.update (f i) (g i)) (n # ns) acc)
        = map_of (rev (map (\<lambda>i. (f i, g i)) ns) @ AList.update (f n) (g n) acc)"
    using Cons.IH[of "AList.update (f n) (g n) acc"] by simp
  also have "\<dots> = map_of (rev (map (\<lambda>i. (f i, g i)) (n # ns)) @ acc)"
    by (simp add: update_conv' map_add_def fun_eq_iff split: option.splits)
  finally show ?case .
qed

lemma keys_fold_update_on:
  "fst ` set (fold (\<lambda>i. AList.update (f i) (g i)) ns acc) = f ` set ns \<union> fst ` set acc"
proof (induction ns arbitrary: acc)
  case Nil
  then show ?case by simp
next
  case (Cons n ns)
  have "fst ` set (AList.update (f n) (g n) acc) = insert (f n) (fst ` set acc)"
    using dom_update[of "f n" "g n" acc] by simp
  then show ?case
    using Cons.IH[of "AList.update (f n) (g n) acc"] by auto
qed

lemma distinct_fold_update_on:
  "distinct (map fst acc) \<Longrightarrow> distinct (map fst (fold (\<lambda>i. AList.update (f i) (g i)) ns acc))"
  by (induction ns arbitrary: acc) (auto simp: distinct_update)

lemma lease_index_fold:
  "lease_index els =
     fold (\<lambda>i. AList.update (els ! (i * 5 + 2)) (els ! (i * 5))) [0..<length els div 5] []"
proof -
  have "\<And>i. i \<in> set [0..<length els div 5] \<Longrightarrow> i * 5 + 2 < length els"
    by auto
  then show ?thesis
    unfolding lease_index_def Let_def
    by (intro fold_cong) auto
qed

lemma map_of_lease_index:
  "map_of (lease_index els) = map_of (rev (map (lease_group els) [0..<length els div 5]))"
  by (simp add: lease_index_fold map_of_fold_update_on lease_group_def[abs_def])

lemma keys_lease_index:
  "fst ` set (lease_index els) = (\<lambda>i. els ! (i * 5 + 2)) ` {0..<length els div 5}"
  by (simp add: lease_index_fold keys_fold_update_on)

lemma distinct_lease_index: "distinct (map fst (lease_index els))"
  by (simp add: lease_index_fold distinct_fold_update_on)

lemma length_lease_index: "length (lease_index els) \<le> length els div 5"
proof -
  have "length (lease_index els) = card (fst ` set (lease_index els))"
    using distinct_lease_index[of els] by (metis distinct_card length_map set_map)
  also have "\<dots> \<le> card {0..<length els div 5}"
    unfolding keys_lease_index by (rule card_image_le) simp
  finally show ?thesis by simp
qed

lemma lease_index_trailing:
  "lease_index (take (5 * (length els div 5)) els) = lease_index els"
proof -
  let ?n = "length els div 5"
  have len: "length (take (5 * ?n) els) div 5 = ?n"
    by (simp add: min_def)
  have "\<And>i. i \<in> set [0..<?n] \<Longrightarrow>
          take (5 * ?n) els ! (i * 5 + 2) = els ! (i * 5 + 2) \<and> take (5 * ?n) els ! (i * 5) = els ! (i * 5)"
    by auto
  then have "fold (\<lambda>i. AList.update (take (5 * ?n) els ! (i * 5 + 2)) (take (5 * ?n) els ! (i * 5))) [0..<?n] []
           = fold (\<lambda>i. AList.update (els ! (i * 5 + 2)) (els ! (i * 5))) [0..<?n] []"
    by (intro fold_cong) auto
  then show ?thesis
    using len by (simp add: lease_index_fold)
qed

lemma lease_index_ten:
  assumes "length els = 10" and "els ! 2 \<noteq> els ! 7"
  shows "lease_index els = [(els ! 2, els ! 0), (els ! 7, els ! 5)]"
proof -
  have "[0..<length els div 5] = [0, Suc 0]"
    using assms(1) by (simp add: upt_rec)
  then show ?thesis
    using assms(2) by (simp add: lease_index_fold numeral_2_eq_2[symmetric])
qed

lemma update_fresh: "k \<notin> fst ` set al \<Longrightarrow> AList.update k v al = al @ [(k, v)]"
  by (induction al) auto

lemma fold_update_fresh:
  "distinct (map f ns) \<Longrightarrow> f ` set ns \<inter> fst ` set acc = {} \<Longrightarrow>
     fold (\<lambda>i. AList.update (f i) (g i)) ns acc = acc @ map (\<lambda>i. (f i, g i)) ns"
proof (induction ns arbitrary: acc)
  case Nil
  then show ?case by simp
next
  case (Cons n ns)
  have fresh: "f n \<notin> fst ` set acc"
    using Cons.prems(2) by auto
  then have u: "AList.update (f n) (g n) acc = acc @ [(f n, g n)]"
    by (rule update_fresh)
  have "f ` set ns \<inter> fst ` set (acc @ [(f n, g n)]) = {}"
    using Cons.prems by auto
  then have "fold (\<lambda>i. AList.update (f i) (g i)) ns (acc @ [(f n, g n)])
             = (acc @ [(f n, g n)]) @ map (\<lambda>i. (f i, g i)) ns"
    using Cons.IH[of "acc @ [(f n, g n)]"] Cons.prems(1) by simp
  then show ?case
    using u by simp
qed

lemma lease_index_distinct:
  assumes "distinct (map (\<lambda>i. els ! (i * 5 + 2)) [0..<length els div 5])"
  shows "lease_index els = map (lease_group els) [0..<length els div 5]"
  using fold_update_fresh[OF assms, of "[]" "\<lambda>i. els ! (i * 5)"]
  by (simp add: lease_index_fold lease_group_def[abs_def])

lemma count_key_distinct:
  "distinct (map fst al) \<Longrightarrow>
     length (filter (\<lambda>e. fst e = a) al) = (if a \<in> fst ` set al then 1 else 0)"
  by (induction al) (auto simp: image_iff)

lemma lease_index_last_group:
  assumes i: "i < length els div 5"
    and later: "\<forall>j. i < j \<and> j < length els div 5 \<longrightarrow> els ! (j * 5 + 2) \<noteq> els ! (i * 5 + 2)"
  shows "map_of (lease_index els) (els ! (i * 5 + 2)) = Some (els ! (i * 5))"
proof -
  let ?n = "length els div 5"
  let ?a = "els ! (i * 5 + 2)"
  have split_upt: "[0..<?n] = [0..<i] @ i # [Suc i..<?n]"
    using i by (metis less_imp_le_nat upt_add_eq_append upt_conv_Cons le0 add_0 le_add_diff_inverse)
  have "?a \<notin> fst ` set (map (lease_group els) [Suc i..<?n])"
  proof
    assume "?a \<in> fst ` set (map (lease_group els) [Suc i..<?n])"
    then obtain j where j: "Suc i \<le> j" "j < ?n" and e: "?a = els ! (j * 5 + 2)"
      by (auto simp: lease_group_def)
    from later j have "els ! (j * 5 + 2) \<noteq> ?a"
      by simp
    with e show False
      by simp
  qed
  then have none: "map_of (rev (map (lease_group els) [Suc i..<?n])) ?a = None"
    by (simp add: map_of_eq_None_iff)
  have "map_of (lease_index els) ?a
        = map_of (rev (map (lease_group els) [Suc i..<?n]) @ lease_group els i # rev (map (lease_group els) [0..<i])) ?a"
    by (simp add: map_of_lease_index split_upt)
  also have "\<dots> = Some (els ! (i * 5))"
    using none by (simp add: map_add_def lease_group_def)
  finally show ?thesis .
qed

lemma lease_index_one_entry:
  assumes "i < length els div 5"
  shows "length (filter (\<lambda>e. fst e = els ! (i * 5 + 2)) (lease_index els)) = 1"
proof -
  have "els ! (i * 5 + 2) \<in> fst ` set (lease_index els)"
    using assms by (simp add: keys_lease_index)
  then show ?thesis
    using count_key_distinct[OF distinct_lease_index, of "els ! (i * 5 + 2)" els] by simp
qed

lemma get_ddwrt_data_ok:
  assumes "reply w (length (sent w)) url (username sc, password sc) = Response 200 text"
  shows "get_ddwrt_data url sc w
         = (Inr (Some (parse_ddwrt_response text)), w\<lparr>sent := sent w @ [(clock w, url)]\<rparr>)"
  using assms by (simp add: get_ddwrt_data_def)

lemma get_device_name_rebuild:
  assumes miss: "map_of (mac2name sc) device = None"
    and resp: "reply w (length (sent w)) (lan_url sc) (username sc, password sc) = Response 200 text"
    and field: "map_of (parse_ddwrt_response text) ''dhcp_leases'' = Some leases"
    and ne: "leases \<noteq> []"
  shows "get_device_name sc w device
         = (Inr (map_of (lease_index (lease_elements leases)) device),
            sc\<lparr>mac2name := lease_index (lease_elements leases)\<rparr>,
            w\<lparr>sent := sent w @ [(clock w, lan_url sc)]\<rparr>)"
proof -
  have "parse_ddwrt_response text \<noteq> []"
    using field by auto
  then show ?thesis
    using miss field ne get_ddwrt_data_ok[OF resp]
    by (simp add: get_device_name_def lease_names_def)
qed

definition quote_comma_quote :: string where
  "quote_comma_quote = [CHR 0x22, CHR '','', CHR 0x22]"

definition lease_payload :: "string list \<Rightarrow> string" where
  \<comment> \<open>a status page whose \<open>dhcp_leases\<close> field holds the elements, each in double quotes\<close>
  "lease_payload els = token ''dhcp_leases'' (CHR 0x22 # join quote_comma_quote els @ [CHR 0x22])"

definition router_world :: "http_outcome \<Rightarrow> world" where
  \<comment> \<open>a world at time 0 in which every request has the given outcome\<close>
  "router_world out =
     \<lparr>clock = 0, reply = (\<lambda>n url auth. out), sent = [],
      scanner_new = (\<lambda>n. None), made = [],
      probe = (\<lambda>n hs opts. (ScanRaises PortScannerError, 0)), probes = [],
      arp_out = (\<lambda>n a. Prints []), arps = []\<rparr>"

definition home_router :: ddwrt_scanner where
  \<comment> \<open>a scanner after a successful scan that found two devices\<close>
  "home_router =
     \<lparr>host = ''192.168.1.1'', username = ''admin'', password = ''secret'',
      last_results = [''AA:BB:CC:DD:EE:FF'', ''11:22:33:44:55:66''], mac2name = [],
      success_init = True, throttle = throttle_init\<rparr>"

definition two_leases :: "string list" where
  "two_leases = [''phone'', ''192.168.1.10'', ''AA:BB:CC:DD:EE:FF'', ''1 day'', ''10'',
                 ''laptop'', ''192.168.1.11'', ''11:22:33:44:55:66'', ''2 days'', ''11'']"

text \<open>
  C7. When identity resolution runs on a lease table (the queried id is not in the index
  and the router answers with a \<open>dhcp_leases\<close> field that is not empty), the index is
  replaced by the one built from the cleaned element list alone. For a list of \<open>n\<close>
  elements that index is made of the \<open>n div 5\<close> groups of 5, the address of a group at
  its offset 2 and the name at its offset 0: a lookup gives the last group with that
  address, the keys are the addresses of the groups, and with distinct addresses the
  index is the list of the groups. Elements behind the last full group change nothing.
  For 10 elements (two devices, the addresses at offsets 2 and 7 different) the index has
  exactly the two entries, with the names from offsets 0 and 5.
\<close>

theorem lease_table_grouping:
  "(map_of (mac2name sc) device = None
      \<and> reply w (length (sent w)) (lan_url sc) (username sc, password sc) = Response 200 text
      \<and> map_of (parse_ddwrt_response text) ''dhcp_leases'' = Some leases \<and> leases \<noteq> [] \<longrightarrow>
      mac2name (fst (snd (get_device_name sc w device))) = lease_index (lease_elements leases))
   \<and> map_of (lease_index els) = map_of (rev (map (lease_group els) [0..<length els div 5]))
   \<and> fst ` set (lease_index els) = (\<lambda>i. els ! (i * 5 + 2)) ` {0..<length els div 5}
   \<and> distinct (map fst (lease_index els))
   \<and> length (lease_index els) \<le> length els div 5
   \<and> (distinct (map (\<lambda>i. els ! (i * 5 + 2)) [0..<length els div 5]) \<longrightarrow>
        lease_index els = map (lease_group els) [0..<length els div 5])
   \<and> lease_index (take (5 * (length els div 5)) els) = lease_index els
   \<and> (length els = 10 \<and> els ! 2 \<noteq> els ! 7 \<longrightarrow>
        lease_index els = [(els ! 2, els ! 0), (els ! 7, els ! 5)])"
proof -
  have "map_of (mac2name sc) device = None
      \<and> reply w (length (sent w)) (lan_url sc) (username sc, password sc) = Response 200 text
      \<and> map_of (parse_ddwrt_response text) ''dhcp_leases'' = Some leases \<and> leases \<noteq> [] \<longrightarrow>
      mac2name (fst (snd (get_device_name sc w device))) = lease_index (lease_elements leases)"
    by (simp add: get_device_name_rebuild)
  moreover have "distinct (map (\<lambda>i. els ! (i * 5 + 2)) [0..<length els div 5]) \<longrightarrow>
        lease_index els = map (lease_group els) [0..<length els div 5]"
    using lease_index_distinct by blast
  moreover have "length els = 10 \<and> els ! 2 \<noteq> els ! 7 \<longrightarrow>
        lease_index els = [(els ! 2, els ! 0), (els ! 7, els ! 5)]"
    using lease_index_ten by blast
  ultimately show ?thesis
    using map_of_lease_index keys_lease_index distinct_lease_index length_lease_index
      lease_index_trailing by blast
qed

lemma two_leases_elements:
  "lease_elements (CHR 0x22 # join quote_comma_quote two_leases @ [CHR 0x22]) = two_leases"
  by (simp add: lease_elements_def strip_def strip_chars_def strip_with_def isspace_def
      split_def quote_comma_quote_def two_leases_def)

lemma two_leases_field:
  "map_of (parse_ddwrt_response (lease_payload two_leases)) ''dhcp_leases''
   = Some (CHR 0x22 # join quote_comma_quote two_leases @ [CHR 0x22])"
proof -
  have "findall (lease_payload two_leases @ [])
        = (''dhcp_leases'', CHR 0x22 # join quote_comma_quote two_leases @ [CHR 0x22]) # findall []"
    unfolding lease_payload_def
    by (rule findall_token) (simp_all add: is_word_def quote_comma_quote_def two_leases_def)
  then show ?thesis
    by (simp add: parse_ddwrt_response_def)
qed

theorem lease_table_grouping_witness:
  "map_of (mac2name home_router) ''AA:BB:CC:DD:EE:FF'' = None
   \<and> length two_leases = 10 \<and> two_leases ! 2 \<noteq> two_leases ! 7
   \<and> mac2name (fst (snd (get_device_name home_router
          (router_world (Response 200 (lease_payload two_leases))) ''AA:BB:CC:DD:EE:FF'')))
      = [(''AA:BB:CC:DD:EE:FF'', ''phone''), (''11:22:33:44:55:66'', ''laptop'')]
   \<and> lease_index two_leases = [(''AA:BB:CC:DD:EE:FF'', ''phone''), (''11:22:33:44:55:66'', ''laptop'')]
   \<and> lease_index (two_leases @ [''tablet'', ''192.168.1.12''])
      = [(''AA:BB:CC:DD:EE:FF'', ''phone''), (''11:22:33:44:55:66'', ''laptop'')]"
proof -
  let ?w = "router_world (Response 200 (lease_payload two_leases))"
  let ?leases = "CHR 0x22 # join quote_comma_quote two_leases @ [CHR 0x22]"
  have miss: "map_of (mac2name home_router) ''AA:BB:CC:DD:EE:FF'' = None"
    by (simp add: home_router_def)
  have resp: "reply ?w (length (sent ?w)) (lan_url home_router)
                (username home_router, password home_router) = Response 200 (lease_payload two_leases)"
    by (simp add: router_world_def)
  have ne: "?leases \<noteq> []"
    by simp
  have ten: "length two_leases = 10 \<and> two_leases ! 2 \<noteq> two_leases ! 7"
    by (simp add: two_leases_def)
  have vals: "[(two_leases ! 2, two_leases ! 0), (two_leases ! 7, two_leases ! 5)]
              = [(''AA:BB:CC:DD:EE:FF'', ''phone''), (''11:22:33:44:55:66'', ''laptop'')]"
    by (simp add: two_leases_def)
  have more: "take (5 * (length (two_leases @ [''tablet'', ''192.168.1.12'']) div 5))
                (two_leases @ [''tablet'', ''192.168.1.12'']) = two_leases"
    by (simp add: two_leases_def)
  note t1 = lease_table_grouping[of home_router "''AA:BB:CC:DD:EE:FF''" ?w "lease_payload two_leases"
      ?leases two_leases]
  note t2 = lease_table_grouping[of home_router "''AA:BB:CC:DD:EE:FF''" ?w "lease_payload two_leases"
      ?leases "two_leases @ [''tablet'', ''192.168.1.12'']"]
  have a: "mac2name (fst (snd (get_device_name home_router ?w ''AA:BB:CC:DD:EE:FF'')))
           = lease_index two_leases"
    using t1 miss resp two_leases_field ne two_leases_elements by simp
  have b: "lease_index two_leases = [(two_leases ! 2, two_leases ! 0), (two_leases ! 7, two_leases ! 5)]"
    using t1 ten by blast
  have c: "lease_index (two_leases @ [''tablet'', ''192.168.1.12'']) = lease_index two_leases"
    using t2 more by metis
  show ?thesis
    using miss ten a b c vals by simp
qed

text \<open>
  C10. When an address stands in more than one group, take the last group that has it
  (no later group has the same address): the index maps the address to the name of that
  group, and holds exactly one entry for the address.
\<close>

theorem lease_table_duplicate_address:
  "i < length els div 5
   \<and> (\<forall>j. i < j \<and> j < length els div 5 \<longrightarrow> els ! (j * 5 + 2) \<noteq> els ! (i * 5 + 2)) \<longrightarrow>
     map_of (lease_index els) (els ! (i * 5 + 2)) = Some (els ! (i * 5))
     \<and> length (filter (\<lambda>e. fst e = els ! (i * 5 + 2)) (lease_index els)) = 1"
  using lease_index_last_group lease_index_one_entry by blast

definition twice_leased :: "string list" where
  \<comment> \<open>one address in both groups\<close>
  "twice_leased = [''phone'', ''192.168.1.10'', ''AA:BB:CC:DD:EE:FF'', ''1 day'', ''10'',
                   ''phone-new'', ''192.168.1.11'', ''AA:BB:CC:DD:EE:FF'', ''2 days'', ''11'']"

theorem lease_table_duplicate_address_witness:
  "(1::nat) < length twice_leased div 5
   \<and> twice_leased ! (0 * 5 + 2) = twice_leased ! (1 * 5 + 2)
   \<and> map_of (lease_index twice_leased) ''AA:BB:CC:DD:EE:FF'' = Some ''phone-new''
   \<and> length (filter (\<lambda>e. fst e = ''AA:BB:CC:DD:EE:FF'') (lease_index twice_leased)) = 1
   \<and> lease_index twice_leased = [(''AA:BB:CC:DD:EE:FF'', ''phone-new'')]"
proof -
  have i: "(1::nat) < length twice_leased div 5"
    by (simp add: twice_leased_def)
  have later: "\<forall>j. 1 < j \<and> j < length twice_leased div 5 \<longrightarrow>
                 twice_leased ! (j * 5 + 2) \<noteq> twice_leased ! (1 * 5 + 2)"
    by (simp add: twice_leased_def)
  have vals: "twice_leased ! (1 * 5 + 2) = ''AA:BB:CC:DD:EE:FF'' \<and> twice_leased ! (1 * 5) = ''phone-new''
              \<and> twice_leased ! (0 * 5 + 2) = twice_leased ! (1 * 5 + 2)"
    by (simp add: twice_leased_def)
  have whole: "lease_index twice_leased = [(''AA:BB:CC:DD:EE:FF'', ''phone-new'')]"
    by (simp add: lease_index_fold twice_leased_def upt_rec)
  show ?thesis
    using lease_table_duplicate_address[of 1 twice_leased] i later vals whole by simp
qed

section \<open>Properties of name lookup\<close>

lemma get_device_name_known:
  "map_of (mac2name sc) device \<noteq> None \<Longrightarrow>
     get_device_name sc w device = (Inr (map_of (mac2name sc) device), sc, w)"
  by (auto simp: get_device_name_def)

lemma nmap_get_device_name_known:
  assumes "m \<in> mac ` set (nmap_last_results sc)"
  shows "\<exists>d \<in> set (nmap_last_results sc). mac d = m \<and> nmap_get_device_name sc m = Some (name d)"
proof -
  let ?ds = "filter (\<lambda>d. mac d = m) (nmap_last_results sc)"
  from assms have "?ds \<noteq> []"
    by (auto simp: filter_empty_conv)
  then obtain d rest where ds: "?ds = d # rest"
    by (cases ?ds) auto
  then have "d \<in> set ?ds"
    by simp
  then have "d \<in> set (nmap_last_results sc) \<and> mac d = m"
    by simp
  moreover have "nmap_get_device_name sc m = Some (name d)"
    using ds by (simp add: nmap_get_device_name_def)
  ultimately show ?thesis
    by blast
qed

definition named_router :: ddwrt_scanner where
  \<comment> \<open>the scanner with a name index of one entry\<close>
  "named_router = home_router\<lparr>mac2name := [(''AA:BB:CC:DD:EE:FF'', ''phone'')]\<rparr>"

text \<open>
  C9. For an id that is in the name index, \<open>get_device_name\<close> of the router-poll scanner
  returns the indexed name and leaves the scanner and the world as they were: no request
  is sent, and a second call (no scan in between) returns the same value, again with no
  request. The sweep scanner's \<open>get_device_name\<close> reads the last results only (it takes
  no world, so it cannot probe); for a known id it returns the name of a record with
  that id.
\<close>

theorem get_device_name_known_idempotent:
  "(map_of (mac2name sc) device \<noteq> None \<longrightarrow>
      get_device_name sc w device = (Inr (map_of (mac2name sc) device), sc, w)
      \<and> (case get_device_name sc w device of
            (r1, sc1, w1) \<Rightarrow> get_device_name sc1 w1 device = (r1, sc1, w1) \<and> sent w1 = sent w))
   \<and> (m \<in> mac ` set (nmap_last_results nsc) \<longrightarrow>
        (\<exists>d \<in> set (nmap_last_results nsc). mac d = m \<and> nmap_get_device_name nsc m = Some (name d)))"
  using get_device_name_known[of sc device w] nmap_get_device_name_known[of m nsc]
  by auto

definition phone_record :: device where
  "phone_record = \<lparr>mac = ''AA:BB:CC:DD:EE:FF'', name = ''phone'', ip = ''192.168.1.10'', last_update = 0\<rparr>"

definition sweep_home :: nmap_scanner where
  \<comment> \<open>a sweep scanner, home interval 5 minutes, whose last results hold the phone\<close>
  "sweep_home =
     \<lparr>hosts = ''192.168.1.0/24'', home_interval = 5 * 60 * 1000000,
      nmap_last_results = [phone_record], nmap_success_init = True,
      nmap_throttle = throttle_init\<rparr>"

theorem get_device_name_known_idempotent_witness:
  "map_of (mac2name named_router) ''AA:BB:CC:DD:EE:FF'' \<noteq> None
   \<and> get_device_name named_router (router_world (Raises ConnectionError)) ''AA:BB:CC:DD:EE:FF''
      = (Inr (Some ''phone''), named_router, router_world (Raises ConnectionError))
   \<and> ''AA:BB:CC:DD:EE:FF'' \<in> mac ` set (nmap_last_results sweep_home)
   \<and> nmap_get_device_name sweep_home ''AA:BB:CC:DD:EE:FF'' = Some ''phone''"
proof -
  have k: "map_of (mac2name named_router) ''AA:BB:CC:DD:EE:FF'' = Some ''phone''"
    by (simp add: named_router_def)
  have n: "''AA:BB:CC:DD:EE:FF'' \<in> mac ` set (nmap_last_results sweep_home)"
    by (simp add: sweep_home_def phone_record_def)
  have "\<exists>d \<in> set (nmap_last_results sweep_home). mac d = ''AA:BB:CC:DD:EE:FF''
          \<and> nmap_get_device_name sweep_home ''AA:BB:CC:DD:EE:FF'' = Some (name d)"
    using get_device_name_known_idempotent[of named_router "''AA:BB:CC:DD:EE:FF''"
        "router_world (Raises ConnectionError)" "''AA:BB:CC:DD:EE:FF''" sweep_home] n
    by blast
  then have s: "nmap_get_device_name sweep_home ''AA:BB:CC:DD:EE:FF'' = Some ''phone''"
    by (simp add: sweep_home_def phone_record_def)
  have "get_device_name named_router (router_world (Raises ConnectionError)) ''AA:BB:CC:DD:EE:FF''
        = (Inr (map_of (mac2name named_router) ''AA:BB:CC:DD:EE:FF''), named_router,
           router_world (Raises ConnectionError))"
    using get_device_name_known_idempotent[of named_router "''AA:BB:CC:DD:EE:FF''"
        "router_world (Raises ConnectionError)" "''AA:BB:CC:DD:EE:FF''" sweep_home] k
    by simp
  then show ?thesis
    using k n s by simp
qed

section \<open>The home interval of the sweep\<close>

definition freshly_probed ::
  "int \<Rightarrow> (string \<times> host_info) list \<Rightarrow> world \<Rightarrow> nmap_error + device list" where
  \<comment> \<open>the records the loop of lines 139 to 147 makes from the probe's answer, or the
      exception that ends it\<close>
  "freshly_probed now items w = fst (scan_items now items ([], w))"

definition probed_world :: "nmap_scanner \<Rightarrow> world \<Rightarrow> world" where
  \<comment> \<open>the world when the probe of a refresh has returned\<close>
  "probed_world sc w =
     w\<lparr>made := made w @ [clock w],
       probes := probes w @ [(clock w, hosts sc, nmap_options (carried_over sc (clock w)))],
       clock := clock w
                + snd (probe w (length (probes w)) (hosts sc) (nmap_options (carried_over sc (clock w))))\<rparr>"

lemma due_at_start: "due MIN_TIME_BETWEEN_SCANS throttle_init t"
  by (simp add: due_def throttle_init_def)

lemma arp_keeps:
  "probes (snd (arp a w)) = probes w \<and> clock (snd (arp a w)) = clock w
   \<and> made (snd (arp a w)) = made w \<and> scanner_new (snd (arp a w)) = scanner_new w"
  by (simp add: arp_def Let_def split: arp_outcome.splits)

lemma scan_item_cases:
  obtains "scan_item now item (acc, w) = (Inr acc, snd (scan_item now item ([], w)))"
      and "fst (scan_item now item ([], w)) = Inr []"
  | e where "scan_item now item (acc, w) = (Inl e, snd (scan_item now item ([], w)))"
      and "fst (scan_item now item ([], w)) = Inl e"
  | a where "state (snd item) = ''up''"
      and "scan_item now item (acc, w)
             = (Inr (acc @ [\<lparr>mac = upper a, name = host_name (fst item) (snd item), ip = fst item,
                              last_update = now\<rparr>]),
                snd (scan_item now item ([], w)))"
      and "fst (scan_item now item ([], w))
           = Inr [\<lparr>mac = upper a, name = host_name (fst item) (snd item), ip = fst item,
                    last_update = now\<rparr>]"
proof -
  obtain ipv4 info where item: "item = (ipv4, info)"
    by (cases item)
  obtain m w' where a: "arp ipv4 w = (m, w')"
    by (cases "arp ipv4 w")
  have up: "state info \<noteq> ''up'' \<Longrightarrow> ?thesis"
    using item that(1) by (simp add: scan_item_def)
  have direct: "\<And>x. state info = ''up'' \<Longrightarrow> addr_mac info = Some x \<Longrightarrow> x \<noteq> [] \<Longrightarrow> ?thesis"
    using item that(3) by (simp add: scan_item_def Let_def)
  have looked: "state info = ''up'' \<Longrightarrow> addr_mac info = None \<or> addr_mac info = Some [] \<Longrightarrow> ?thesis"
  proof -
    assume s: "state info = ''up''" and n: "addr_mac info = None \<or> addr_mac info = Some []"
    show ?thesis
    proof (cases m)
      case (Inl e)
      then show ?thesis
        using item a s n that(2)[of e] by (auto simp: scan_item_def Let_def)
    next
      case (Inr r)
      show ?thesis
      proof (cases r)
        case None
        then show ?thesis
          using item a s n Inr that(1) by (auto simp: scan_item_def Let_def)
      next
        case (Some x)
        then show ?thesis
          using item a s n Inr that(3)[of x] by (auto simp: scan_item_def Let_def)
      qed
    qed
  qed
  show ?thesis
  proof (cases "state info = ''up''")
    case False
    then show ?thesis by (rule up)
  next
    case True
    show ?thesis
    proof (cases "addr_mac info")
      case None
      then show ?thesis using looked True by blast
    next
      case (Some x)
      then show ?thesis
        using direct[of x] looked True by (cases "x = []") auto
    qed
  qed
qed

lemma scan_item_step:
  "scan_item now item (acc, w)
   = (map_sum id ((@) acc) (fst (scan_item now item ([], w))), snd (scan_item now item ([], w)))"
  by (rule scan_item_cases[of now item acc w]) simp_all

lemma scan_item_keeps:
  "probes (snd (scan_item now item (acc, w))) = probes w
   \<and> clock (snd (scan_item now item (acc, w))) = clock w
   \<and> made (snd (scan_item now item (acc, w))) = made w
   \<and> scanner_new (snd (scan_item now item (acc, w))) = scanner_new w"
proof -
  obtain ipv4 info where item: "item = (ipv4, info)"
    by (cases item)
  obtain m w' where a: "arp ipv4 w = (m, w')"
    by (cases "arp ipv4 w")
  have k: "probes w' = probes w \<and> clock w' = clock w \<and> made w' = made w
           \<and> scanner_new w' = scanner_new w"
    using arp_keeps[of ipv4 w] a by simp
  show ?thesis
    using item a k
    by (auto simp: scan_item_def Let_def split: option.splits sum.splits)
qed

lemma scan_items_append:
  "scan_items now items (acc, w)
   = (map_sum id ((@) acc) (fst (scan_items now items ([], w))), snd (scan_items now items ([], w)))"
proof (induction items arbitrary: acc w)
  case Nil
  then show ?case by simp
next
  case (Cons item items)
  obtain r0 w0 where s0: "scan_item now item ([], w) = (r0, w0)"
    by (cases "scan_item now item ([], w)")
  have s1: "scan_item now item (acc, w) = (map_sum id ((@) acc) r0, w0)"
    using scan_item_step[of now item acc w] s0 by simp
  show ?case
  proof (cases r0)
    case (Inl e)
    then show ?thesis
      using s0 s1 by simp
  next
    case (Inr f)
    have l: "scan_items now (item # items) (acc, w) = scan_items now items (acc @ f, w0)"
      using s1 Inr by simp
    have r: "scan_items now (item # items) ([], w) = scan_items now items (f, w0)"
      using s0 Inr by simp
    have "scan_items now items (acc @ f, w0)
          = (map_sum id ((@) (acc @ f)) (fst (scan_items now items ([], w0))),
             snd (scan_items now items ([], w0)))"
      by (rule Cons.IH)
    moreover have "scan_items now items (f, w0)
          = (map_sum id ((@) f) (fst (scan_items now items ([], w0))),
             snd (scan_items now items ([], w0)))"
      by (rule Cons.IH)
    ultimately show ?thesis
      unfolding l r by (cases "fst (scan_items now items ([], w0))") simp_all
  qed
qed

lemma scan_items_keeps:
  "probes (snd (scan_items now items (acc, w))) = probes w
   \<and> clock (snd (scan_items now items (acc, w))) = clock w
   \<and> made (snd (scan_items now items (acc, w))) = made w
   \<and> scanner_new (snd (scan_items now items (acc, w))) = scanner_new w"
proof (induction items arbitrary: acc w)
  case Nil
  then show ?case by simp
next
  case (Cons item items)
  obtain r w' where s: "scan_item now item (acc, w) = (r, w')"
    by (cases "scan_item now item (acc, w)")
  have k: "probes w' = probes w \<and> clock w' = clock w \<and> made w' = made w
           \<and> scanner_new w' = scanner_new w"
    using scan_item_keeps[of now item acc w] s by simp
  show ?case
  proof (cases r)
    case (Inl e)
    then show ?thesis
      using s k by simp
  next
    case (Inr found)
    then show ?thesis
      using s k Cons.IH[of found w'] by simp
  qed
qed

lemma nmap_body_no_scanner:
  assumes "scanner_new w (length (made w)) = Some e"
  shows "nmap_update_info_body sc w = (Inl e, sc, w\<lparr>made := made w @ [clock w]\<rparr>)"
  using assms by (simp add: nmap_update_info_body_def)

lemma nmap_body_scan_raises:
  assumes "scanner_new w (length (made w)) = None"
    and "probe w (length (probes w)) (hosts sc) (nmap_options (carried_over sc (clock w)))
         = (ScanRaises e, el)"
  shows "nmap_update_info_body sc w
         = (if e = PortScannerError then Inr False else Inl e, sc, probed_world sc w)"
  using assms by (simp add: nmap_update_info_body_def Let_def probed_world_def)

lemma nmap_body_loop:
  assumes "scanner_new w (length (made w)) = None"
    and "probe w (length (probes w)) (hosts sc) (nmap_options (carried_over sc (clock w)))
         = (Scan items, el)"
  shows "nmap_update_info_body sc w
         = (case freshly_probed (clock w + el) items (probed_world sc w) of
              Inl e \<Rightarrow> (Inl e, sc, snd (scan_items (clock w + el) items ([], probed_world sc w)))
            | Inr fresh \<Rightarrow>
                (Inr True, sc\<lparr>nmap_last_results := carried_over sc (clock w) @ fresh\<rparr>,
                 snd (scan_items (clock w + el) items ([], probed_world sc w))))"
proof -
  let ?w1 = "probed_world sc w"
  let ?kept = "carried_over sc (clock w)"
  have c: "clock ?w1 = clock w + el"
    using assms(2) by (simp add: probed_world_def)
  have b: "nmap_update_info_body sc w
           = (case scan_items (clock w + el) items (?kept, ?w1) of
                (Inl e, w2) \<Rightarrow> (Inl e, sc, w2)
              | (Inr found, w2) \<Rightarrow> (Inr True, sc\<lparr>nmap_last_results := found\<rparr>, w2))"
    using assms by (simp add: nmap_update_info_body_def Let_def probed_world_def)
  show ?thesis
    unfolding b
    by (subst scan_items_append)
       (cases "fst (scan_items (clock w + el) items ([], ?w1))"; simp add: freshly_probed_def)
qed








lemma nmap_sc0:
  "carried_over (sc\<lparr>nmap_throttle := ts\<rparr>) now = carried_over sc now
   \<and> probed_world (sc\<lparr>nmap_throttle := ts\<rparr>) w = probed_world sc w"
  by (simp add: carried_over_def probed_world_def)

lemma nmap_update_info_due_body:
  assumes "due MIN_TIME_BETWEEN_SCANS (nmap_throttle sc) (clock w)"
  shows "fst (nmap_update_info sc w)
         = fst (nmap_update_info_body (sc\<lparr>nmap_throttle := (nmap_throttle sc)\<lparr>lastRefreshAt := Some (clock w)\<rparr>\<rparr>) w)
         \<and> nmap_last_results (fst (snd (nmap_update_info sc w)))
           = nmap_last_results (fst (snd (nmap_update_info_body
               (sc\<lparr>nmap_throttle := (nmap_throttle sc)\<lparr>lastRefreshAt := Some (clock w)\<rparr>\<rparr>) w)))
         \<and> snd (snd (nmap_update_info sc w))
           = snd (snd (nmap_update_info_body
               (sc\<lparr>nmap_throttle := (nmap_throttle sc)\<lparr>lastRefreshAt := Some (clock w)\<rparr>\<rparr>) w))"
proof -
  let ?sc0 = "sc\<lparr>nmap_throttle := (nmap_throttle sc)\<lparr>lastRefreshAt := Some (clock w)\<rparr>\<rparr>"
  obtain r sc' w' where b: "nmap_update_info_body ?sc0 w = (r, sc', w')"
    by (cases "nmap_update_info_body ?sc0 w") auto
  show ?thesis
    using assms b by (cases r) (simp_all add: nmap_update_info_def Let_def)
qed

lemma nmap_scan_devices_result:
  "fst (nmap_scan_devices sc w)
   = map_sum id (\<lambda>ok. map mac (nmap_last_results (fst (snd (nmap_update_info sc w)))))
       (fst (nmap_update_info sc w))
   \<and> snd (nmap_scan_devices sc w) = snd (nmap_update_info sc w)"
proof -
  obtain r sc' w' where u: "nmap_update_info sc w = (r, sc', w')"
    by (cases "nmap_update_info sc w") auto
  then show ?thesis
    by (cases r) (simp_all add: nmap_scan_devices_def)
qed



definition sweep_answer :: "(string \<times> host_info) list" where
  \<comment> \<open>a probe's answer: a host with its address, a host whose address \<open>arp\<close> must find,
      and a host that is down\<close>
  "sweep_answer =
     [(''192.168.1.11'', \<lparr>state = ''up'', hostnames = [''laptop''], addr_mac = Some ''11:22:33:44:55:66''\<rparr>),
      (''192.168.1.12'', \<lparr>state = ''up'', hostnames = [], addr_mac = None\<rparr>),
      (''192.168.1.13'', \<lparr>state = ''down'', hostnames = [''printer''], addr_mac = Some ''00:00:00:00:00:01''\<rparr>)]"

definition sweep_world :: world where
  \<comment> \<open>one minute after time 0; the scanner is constructed, the probe takes 3 seconds and
      returns the answer above\<close>
  "sweep_world =
     \<lparr>clock = 60 * 1000000, reply = (\<lambda>n url auth. Raises Timeout), sent = [],
      scanner_new = (\<lambda>n. None), made = [],
      probe = (\<lambda>n hs opts. (Scan sweep_answer, 3 * 1000000)), probes = [],
      arp_out = (\<lambda>n a. Prints ''? (192.168.1.12) at aa:bb:cc:0:1:2f [ether] on eth0''),
      arps = []\<rparr>"




section \<open>Failed refreshes\<close>

definition fetch_failed :: "http_outcome \<Rightarrow> bool" where
  \<comment> \<open>the request timed out, was answered with a status other than 200 (401 among them),
      or the parser found no field in the page\<close>
  "fetch_failed out =
     (case out of
        Raises e \<Rightarrow> e = Timeout
      | Response status_code text \<Rightarrow> status_code \<noteq> 200 \<or> parse_ddwrt_response text = [])"

definition no_active_clients :: "http_outcome \<Rightarrow> bool" where
  \<comment> \<open>a page with fields, none of them an \<open>active_wireless\<close> field that is not empty\<close>
  "no_active_clients out =
     (case out of
        Raises e \<Rightarrow> False
      | Response status_code text \<Rightarrow>
          status_code = 200 \<and> parse_ddwrt_response text \<noteq> []
          \<and> (case map_of (parse_ddwrt_response text) ''active_wireless'' of
                None \<Rightarrow> True
              | Some active_clients \<Rightarrow> active_clients = []))"

lemma update_info_body_fetch_failed:
  assumes "fetch_failed (reply w (length (sent w)) (wireless_url sc) (username sc, password sc))"
  shows "fst (update_info_body sc w) = Inr False \<and> fst (snd (update_info_body sc w)) = sc"
  using assms
  by (auto simp: update_info_body_def get_ddwrt_data_def fetch_failed_def Let_def
      split: http_outcome.splits request_error.splits)

lemma update_info_body_no_active_clients:
  assumes "success_init sc"
    and "no_active_clients (reply w (length (sent w)) (wireless_url sc) (username sc, password sc))"
  shows "fst (update_info_body sc w) = Inr False
         \<and> fst (snd (update_info_body sc w)) = sc\<lparr>last_results := []\<rparr>"
  using assms
  by (auto simp: update_info_body_def get_ddwrt_data_def no_active_clients_def Let_def
      split: http_outcome.splits request_error.splits option.splits)

lemma update_info_due:
  assumes "due MIN_TIME_BETWEEN_SCANS (throttle sc) (clock w)"
    and "fst (update_info_body (sc\<lparr>throttle := (throttle sc)\<lparr>lastRefreshAt := Some (clock w)\<rparr>\<rparr>) w) = Inr ok"
  shows "fst (update_info sc w) = Inr ok
         \<and> last_results (fst (snd (update_info sc w)))
           = last_results (fst (snd (update_info_body (sc\<lparr>throttle := (throttle sc)\<lparr>lastRefreshAt := Some (clock w)\<rparr>\<rparr>) w)))"
  using assms
  by (cases "update_info_body (sc\<lparr>throttle := (throttle sc)\<lparr>lastRefreshAt := Some (clock w)\<rparr>\<rparr>) w")
     (auto simp: update_info_def Let_def)

lemma scan_devices_result:
  assumes "fst (update_info sc w) = Inr ok"
  shows "fst (scan_devices sc w) = Inr (last_results (fst (snd (update_info sc w))))
         \<and> fst (snd (scan_devices sc w)) = fst (snd (update_info sc w))"
  using assms by (cases "update_info sc w") (auto simp: scan_devices_def)

lemma ddwrt_failed_refresh:
  assumes d: "due MIN_TIME_BETWEEN_SCANS (throttle sc) (clock w)"
    and f: "fetch_failed (reply w (length (sent w)) (wireless_url sc) (username sc, password sc))"
  shows "fst (update_info sc w) = Inr False
         \<and> last_results (fst (snd (update_info sc w))) = last_results sc
         \<and> fst (scan_devices sc w) = Inr (last_results sc)
         \<and> last_results (fst (snd (scan_devices sc w))) = last_results sc"
proof -
  let ?sc0 = "sc\<lparr>throttle := (throttle sc)\<lparr>lastRefreshAt := Some (clock w)\<rparr>\<rparr>"
  have "fetch_failed (reply w (length (sent w)) (wireless_url ?sc0) (username ?sc0, password ?sc0))"
    using f by (simp add: wireless_url_def)
  then have b: "fst (update_info_body ?sc0 w) = Inr False \<and> fst (snd (update_info_body ?sc0 w)) = ?sc0"
    by (rule update_info_body_fetch_failed)
  then have u: "fst (update_info sc w) = Inr False
                \<and> last_results (fst (snd (update_info sc w))) = last_results sc"
    using update_info_due[OF d, of False] by simp
  then show ?thesis
    using scan_devices_result[of sc w False] by simp
qed

lemma ddwrt_cleared_refresh:
  assumes d: "due MIN_TIME_BETWEEN_SCANS (throttle sc) (clock w)"
    and i: "success_init sc"
    and f: "no_active_clients (reply w (length (sent w)) (wireless_url sc) (username sc, password sc))"
  shows "fst (update_info sc w) = Inr False
         \<and> last_results (fst (snd (update_info sc w))) = []
         \<and> fst (scan_devices sc w) = Inr []"
proof -
  let ?sc0 = "sc\<lparr>throttle := (throttle sc)\<lparr>lastRefreshAt := Some (clock w)\<rparr>\<rparr>"
  have "no_active_clients (reply w (length (sent w)) (wireless_url ?sc0) (username ?sc0, password ?sc0))"
    using f by (simp add: wireless_url_def)
  moreover have "success_init ?sc0"
    using i by simp
  ultimately have b: "fst (update_info_body ?sc0 w) = Inr False
        \<and> fst (snd (update_info_body ?sc0 w)) = ?sc0\<lparr>last_results := []\<rparr>"
    using update_info_body_no_active_clients[of ?sc0 w] by blast
  then have u: "fst (update_info sc w) = Inr False
                \<and> last_results (fst (snd (update_info sc w))) = []"
    using update_info_due[OF d, of False] by simp
  then show ?thesis
    using scan_devices_result[of sc w False] by simp
qed

lemma nmap_failed_refresh:
  assumes d: "due MIN_TIME_BETWEEN_SCANS (nmap_throttle sc) (clock w)"
    and n: "scanner_new w (length (made w)) = None"
    and f: "fst (probe w (length (probes w)) (hosts sc) (nmap_options (carried_over sc (clock w))))
            = ScanRaises PortScannerError"
  shows "fst (nmap_update_info sc w) = Inr False
         \<and> nmap_last_results (fst (snd (nmap_update_info sc w))) = nmap_last_results sc
         \<and> fst (nmap_scan_devices sc w) = Inr (map mac (nmap_last_results sc))
         \<and> nmap_last_results (fst (snd (nmap_scan_devices sc w))) = nmap_last_results sc"
proof -
  let ?sc0 = "sc\<lparr>nmap_throttle := (nmap_throttle sc)\<lparr>lastRefreshAt := Some (clock w)\<rparr>\<rparr>"
  obtain el where p: "probe w (length (probes w)) (hosts sc) (nmap_options (carried_over sc (clock w)))
                      = (ScanRaises PortScannerError, el)"
    using f by (cases "probe w (length (probes w)) (hosts sc) (nmap_options (carried_over sc (clock w)))") auto
  then have "probe w (length (probes w)) (hosts ?sc0) (nmap_options (carried_over ?sc0 (clock w)))
             = (ScanRaises PortScannerError, el)"
    by (simp add: nmap_sc0)
  then have b: "fst (nmap_update_info_body ?sc0 w) = Inr False
                \<and> fst (snd (nmap_update_info_body ?sc0 w)) = ?sc0"
    using nmap_body_scan_raises[OF n, of ?sc0 PortScannerError el] by simp
  then have u: "fst (nmap_update_info sc w) = Inr False
           \<and> nmap_last_results (fst (snd (nmap_update_info sc w))) = nmap_last_results sc"
    using nmap_update_info_due_body[OF d] by simp
  then show ?thesis
    using nmap_scan_devices_result[of sc w] by simp
qed

text \<open>
  C1 as the code has it. A refresh that runs (the throttle lets it) and whose request
  times out, is answered with a status other than 200, or brings a page in which the
  parser finds no field, reports false and leaves the cached result as it was;
  \<open>scan_devices\<close> returns that result. The same holds for the sweep scanner when its
  port scanner is constructed and the scan call raises \<open>PortScannerError\<close>, the error
  that lines 133 to 136 catch. When the page has fields but no \<open>active_wireless\<close> field that
  is not empty, the refresh reports false as well, and the cached result is then the
  empty list: line 148 clears it before line 151 looks for the field.
\<close>

theorem failed_refresh_cache:
  "(due MIN_TIME_BETWEEN_SCANS (throttle sc) (clock w)
      \<and> fetch_failed (reply w (length (sent w)) (wireless_url sc) (username sc, password sc)) \<longrightarrow>
      fst (update_info sc w) = Inr False
      \<and> last_results (fst (snd (update_info sc w))) = last_results sc
      \<and> fst (scan_devices sc w) = Inr (last_results sc)
      \<and> last_results (fst (snd (scan_devices sc w))) = last_results sc)
   \<and> (due MIN_TIME_BETWEEN_SCANS (throttle sc) (clock w) \<and> success_init sc
      \<and> no_active_clients (reply w (length (sent w)) (wireless_url sc) (username sc, password sc)) \<longrightarrow>
      fst (update_info sc w) = Inr False
      \<and> last_results (fst (snd (update_info sc w))) = []
      \<and> fst (scan_devices sc w) = Inr [])
   \<and> (due MIN_TIME_BETWEEN_SCANS (nmap_throttle nsc) (clock w)
      \<and> scanner_new w (length (made w)) = None
      \<and> fst (probe w (length (probes w)) (hosts nsc) (nmap_options (carried_over nsc (clock w))))
        = ScanRaises PortScannerError \<longrightarrow>
      fst (nmap_update_info nsc w) = Inr False
      \<and> nmap_last_results (fst (snd (nmap_update_info nsc w))) = nmap_last_results nsc
      \<and> fst (nmap_scan_devices nsc w) = Inr (map mac (nmap_last_results nsc))
      \<and> nmap_last_results (fst (snd (nmap_scan_devices nsc w))) = nmap_last_results nsc)"
  using ddwrt_failed_refresh[of sc w] ddwrt_cleared_refresh[of sc w] nmap_failed_refresh[of nsc w]
  by blast

theorem failed_refresh_cache_witness:
  "due MIN_TIME_BETWEEN_SCANS (throttle home_router) (clock (router_world (Response 401 [])))
   \<and> fetch_failed (Response 401 []) \<and> fetch_failed (Raises Timeout) \<and> fetch_failed (Response 200 ''{foo::bar'')
   \<and> fst (update_info home_router (router_world (Response 401 []))) = Inr False
   \<and> fst (scan_devices home_router (router_world (Response 401 [])))
      = Inr [''AA:BB:CC:DD:EE:FF'', ''11:22:33:44:55:66'']
   \<and> fst (scan_devices home_router (router_world (Raises Timeout)))
      = Inr [''AA:BB:CC:DD:EE:FF'', ''11:22:33:44:55:66'']
   \<and> fst (scan_devices home_router (router_world (Response 200 ''{foo::bar'')))
      = Inr [''AA:BB:CC:DD:EE:FF'', ''11:22:33:44:55:66'']
   \<and> success_init home_router \<and> no_active_clients (Response 200 ''{active_wireless::}'')
   \<and> fst (scan_devices home_router (router_world (Response 200 ''{active_wireless::}''))) = Inr []
   \<and> due MIN_TIME_BETWEEN_SCANS (nmap_throttle sweep_home) (clock (router_world (Response 401 [])))
   \<and> scanner_new (router_world (Response 401 [])) (length (made (router_world (Response 401 [])))) = None
   \<and> fst (nmap_update_info sweep_home (router_world (Response 401 []))) = Inr False
   \<and> fst (nmap_scan_devices sweep_home (router_world (Response 401 []))) = Inr [''AA:BB:CC:DD:EE:FF'']"
proof -
  have d: "\<And>out. due MIN_TIME_BETWEEN_SCANS (throttle home_router) (clock (router_world out))"
    by (simp add: home_router_def due_at_start)
  have r: "\<And>out. reply (router_world out) (length (sent (router_world out))) (wireless_url home_router)
             (username home_router, password home_router) = out"
    by (simp add: router_world_def)
  have f1: "fetch_failed (Response 401 [])" and f2: "fetch_failed (Raises Timeout)"
    and f3: "fetch_failed (Response 200 ''{foo::bar'')"
    by (simp_all add: fetch_failed_def parse_example_open)
  have n: "no_active_clients (Response 200 ''{active_wireless::}'')"
    by (simp add: no_active_clients_def parse_ddwrt_response_def brace_match_def is_word_def)
  have i: "success_init home_router"
    by (simp add: home_router_def)
  have lr: "last_results home_router = [''AA:BB:CC:DD:EE:FF'', ''11:22:33:44:55:66'']"
    by (simp add: home_router_def)
  have nd: "due MIN_TIME_BETWEEN_SCANS (nmap_throttle sweep_home) (clock (router_world (Response 401 [])))"
    by (simp add: sweep_home_def due_at_start)
  have np: "fst (probe (router_world (Response 401 [])) (length (probes (router_world (Response 401 []))))
              (hosts sweep_home) (nmap_options (carried_over sweep_home (clock (router_world (Response 401 []))))))
            = ScanRaises PortScannerError"
    by (simp add: router_world_def)
  have nn: "scanner_new (router_world (Response 401 [])) (length (made (router_world (Response 401 [])))) = None"
    by (simp add: router_world_def)
  have nl: "map mac (nmap_last_results sweep_home) = [''AA:BB:CC:DD:EE:FF'']"
    by (simp add: sweep_home_def phone_record_def)
  note t1 = failed_refresh_cache[of home_router "router_world (Response 401 [])" sweep_home]
  note t2 = failed_refresh_cache[of home_router "router_world (Raises Timeout)" sweep_home]
  note t3 = failed_refresh_cache[of home_router "router_world (Response 200 ''{foo::bar'')" sweep_home]
  note t4 = failed_refresh_cache[of home_router "router_world (Response 200 ''{active_wireless::}'')" sweep_home]
  have a1: "fst (update_info home_router (router_world (Response 401 []))) = Inr False
            \<and> fst (scan_devices home_router (router_world (Response 401 []))) = Inr (last_results home_router)"
    using t1 d r f1 by simp
  have a2: "fst (scan_devices home_router (router_world (Raises Timeout))) = Inr (last_results home_router)"
    using t2 d r f2 by simp
  have a3: "fst (scan_devices home_router (router_world (Response 200 ''{foo::bar''))) = Inr (last_results home_router)"
    using t3 d r f3 by simp
  have a4: "fst (scan_devices home_router (router_world (Response 200 ''{active_wireless::}''))) = Inr []"
    using t4 d r n i by simp
  have a5: "fst (nmap_update_info sweep_home (router_world (Response 401 []))) = Inr False
            \<and> fst (nmap_scan_devices sweep_home (router_world (Response 401 [])))
              = Inr (map mac (nmap_last_results sweep_home))"
    using t1 nd nn np by blast
  show ?thesis
    using d f1 f2 f3 n i nd nn a1 a2 a3 a4 a5 lr nl by simp
qed

text \<open>
  The claim as it is written fails on the router-poll scanner: with the two devices
  cached, a page with fields but no active client makes the refresh report false and
  \<open>scan_devices\<close> return the empty list.
\<close>

theorem failed_refresh_clears_cache:
  "last_results home_router = [''AA:BB:CC:DD:EE:FF'', ''11:22:33:44:55:66'']
   \<and> fst (update_info home_router (router_world (Response 200 ''{active_wireless::}''))) = Inr False
   \<and> fst (scan_devices home_router (router_world (Response 200 ''{active_wireless::}''))) = Inr []
   \<and> fst (update_info home_router (router_world (Response 200 ''{lan_ip::192.168.1.1}''))) = Inr False
   \<and> fst (scan_devices home_router (router_world (Response 200 ''{lan_ip::192.168.1.1}''))) = Inr []"
  by (simp add: home_router_def router_world_def scan_devices_def update_info_def
      update_info_body_def get_ddwrt_data_def wireless_url_def due_at_start
      parse_ddwrt_response_def brace_match_def is_word_def Let_def)

section \<open>Failures that reach the caller\<close>

text \<open>
  C3 at a refused connection. \<open>get_ddwrt_data\<close> catches \<open>Timeout\<close> only, so the
  \<open>ConnectionError\<close> that \<open>requests.get\<close> raises when the router refuses the
  connection leaves \<open>scan_devices\<close>, \<open>get_device_name\<close> (for an id that is not in the
  index) and the constructor as an exception, where a timeout gives a value.
\<close>

theorem connection_refused_raises:
  "fst (scan_devices home_router (router_world (Raises ConnectionError))) = Inl ConnectionError
   \<and> fst (get_device_name home_router (router_world (Raises ConnectionError)) ''AA:BB:CC:DD:EE:FF'')
      = Inl ConnectionError
   \<and> fst (ddwrt_init ''192.168.1.1'' ''admin'' ''secret'' (router_world (Raises ConnectionError)))
      = Inl ConnectionError
   \<and> fst (scan_devices home_router (router_world (Raises Timeout)))
      = Inr [''AA:BB:CC:DD:EE:FF'', ''11:22:33:44:55:66'']
   \<and> fst (get_device_name home_router (router_world (Raises Timeout)) ''AA:BB:CC:DD:EE:FF'') = Inr None"
  by (simp add: home_router_def router_world_def scan_devices_def update_info_def
      update_info_body_def get_device_name_def ddwrt_init_def get_ddwrt_data_def
      wireless_url_def lan_url_def due_at_start Let_def)

section \<open>The active-client list of the router\<close>

definition hex_group :: "string \<Rightarrow> bool" where
  \<comment> \<open>one or two hex digits\<close>
  "hex_group g = ((length g = 1 \<or> length g = 2) \<and> list_all is_hex g)"

definition mac_shaped :: "string \<Rightarrow> bool" where
  \<comment> \<open>the hardware-address grammar in the spec's words: six groups of one or two hex
      digits, separated by colons\<close>
  "mac_shaped s = (\<exists>gs. length gs = 6 \<and> list_all hex_group gs \<and> s = join '':'' gs)"

definition quoted_list :: "string list \<Rightarrow> string" where
  \<comment> \<open>the entries, each in single quotes, separated by commas\<close>
  "quoted_list es = CHR 0x27 # join [CHR 0x27, CHR '','', CHR 0x27] es @ [CHR 0x27]"

lemma not_hex_colon: "\<not> is_hex CHR '':''"
  by (simp add: is_hex_def)

lemma hex_colon_group:
  assumes "hex_group g"
  shows "hex_colon (g @ CHR '':'' # r) = Some (g @ [CHR '':''], r)"
proof -
  from assms consider a where "g = [a]" "is_hex a" | a b where "g = [a, b]" "is_hex a" "is_hex b"
    by (cases g; cases "tl g") (auto simp: hex_group_def)
  then show ?thesis
  proof cases
    case 1
    then show ?thesis
      by (cases r) (simp_all add: not_hex_colon)
  next
    case 2
    then show ?thesis
      by simp
  qed
qed

lemma hex_colon_sound:
  assumes "hex_colon s = Some (m, r)"
  shows "\<exists>g. hex_group g \<and> m = g @ [CHR '':''] \<and> s = m @ r"
proof -
  have "(\<exists>a. m = [a, CHR '':''] \<and> is_hex a \<and> s = m @ r)
        \<or> (\<exists>a b. m = [a, b, CHR '':''] \<and> is_hex a \<and> is_hex b \<and> s = m @ r)"
    using assms by (cases s rule: hex_colon.cases) (auto split: if_splits)
  then show ?thesis
  proof
    assume "\<exists>a. m = [a, CHR '':''] \<and> is_hex a \<and> s = m @ r"
    then obtain a where "m = [a] @ [CHR '':'']" "is_hex a" "s = m @ r"
      by auto
    moreover have "hex_group [a]"
      using \<open>is_hex a\<close> by (simp add: hex_group_def)
    ultimately show ?thesis
      by blast
  next
    assume "\<exists>a b. m = [a, b, CHR '':''] \<and> is_hex a \<and> is_hex b \<and> s = m @ r"
    then obtain a b where "m = [a, b] @ [CHR '':'']" "is_hex a" "is_hex b" "s = m @ r"
      by auto
    moreover have "hex_group [a, b]"
      using \<open>is_hex a\<close> \<open>is_hex b\<close> by (simp add: hex_group_def)
    ultimately show ?thesis
      by blast
  qed
qed

definition colon_groups :: "string list \<Rightarrow> string" where
  \<comment> \<open>the groups, each followed by a colon\<close>
  "colon_groups gs = concat (map (\<lambda>g. g @ [CHR '':'']) gs)"

lemma hex_colons_groups:
  "list_all hex_group gs \<Longrightarrow> hex_colons (length gs) (colon_groups gs @ r) = Some (colon_groups gs, r)"
proof (induction gs)
  case Nil
  then show ?case by (simp add: colon_groups_def)
next
  case (Cons g gs)
  have "hex_colon (g @ CHR '':'' # (colon_groups gs @ r)) = Some (g @ [CHR '':''], colon_groups gs @ r)"
    using Cons.prems by (intro hex_colon_group) simp
  moreover have "colon_groups (g # gs) @ r = g @ CHR '':'' # (colon_groups gs @ r)"
    by (simp add: colon_groups_def)
  moreover have "hex_colons (length gs) (colon_groups gs @ r) = Some (colon_groups gs, r)"
    using Cons by simp
  ultimately show ?case
    by (simp add: colon_groups_def)
qed

lemma hex_colons_sound:
  "hex_colons n s = Some (m, r) \<Longrightarrow>
     \<exists>gs. length gs = n \<and> list_all hex_group gs \<and> m = colon_groups gs \<and> s = m @ r"
proof (induction n arbitrary: s m)
  case 0
  then show ?case by (simp add: colon_groups_def)
next
  case (Suc n)
  from Suc.prems obtain g1 r1 where h: "hex_colon s = Some (g1, r1)"
    by (auto split: option.splits)
  with Suc.prems obtain m1 where t: "hex_colons n r1 = Some (m1, r)" and m: "m = g1 @ m1"
    by (auto split: option.splits)
  from hex_colon_sound[OF h] obtain g where g: "hex_group g" "g1 = g @ [CHR '':'']" "s = g1 @ r1"
    by blast
  from Suc.IH[OF t] obtain gs where gs: "length gs = n" "list_all hex_group gs"
      "m1 = colon_groups gs" "r1 = m1 @ r"
    by blast
  have "length (g # gs) = Suc n \<and> list_all hex_group (g # gs)
        \<and> m = colon_groups (g # gs) \<and> s = m @ r"
    using g gs m by (simp add: colon_groups_def)
  then show ?case
    by blast
qed

lemma hex_tail_sound:
  assumes "hex_tail r = Some t"
  shows "hex_group t \<and> prefix t r"
  using assms
  by (cases r rule: hex_tail.cases) (auto simp: hex_group_def split: if_splits)

lemma hex_tail_group:
  assumes "hex_group g"
  shows "hex_tail (g @ r) \<noteq> None"
proof -
  from assms obtain a g' where "g = a # g'" "is_hex a"
    by (cases g) (auto simp: hex_group_def)
  then show ?thesis
    by (cases "g' @ r") auto
qed

lemma join_colon_snoc: "join '':'' (gs @ [t]) = colon_groups gs @ t"
proof (induction gs)
  case Nil
  then show ?case by (simp add: colon_groups_def)
next
  case (Cons g gs)
  then show ?case
    by (cases "gs @ [t]") (auto simp: colon_groups_def)
qed

lemma mac_match_sound:
  assumes "mac_match s = Some m"
  shows "mac_shaped m \<and> prefix m s"
proof -
  from assms obtain m1 r where c: "hex_colons (Suc (Suc (Suc (Suc (Suc 0))))) s = Some (m1, r)"
    by (auto simp: mac_match_def split: option.splits)
  with assms obtain t where t: "hex_tail r = Some t" and m: "m = m1 @ t"
    by (auto simp: mac_match_def split: option.splits)
  from hex_colons_sound[OF c] obtain gs where len: "length gs = Suc (Suc (Suc (Suc (Suc 0))))"
    and gs: "list_all hex_group gs" "m1 = colon_groups gs" "s = m1 @ r"
    by blast
  from hex_tail_sound[OF t] have tg: "hex_group t" and tp: "prefix t r"
    by simp_all
  have "length (gs @ [t]) = 6 \<and> list_all hex_group (gs @ [t]) \<and> m = join '':'' (gs @ [t])"
    using len gs tg m by (simp add: join_colon_snoc)
  then have "mac_shaped m"
    unfolding mac_shaped_def by blast
  moreover have "prefix m s"
    using gs(3) m tp by (auto simp: prefix_def)
  ultimately show ?thesis
    by simp
qed

lemma mac_match_complete:
  assumes "mac_shaped m"
  shows "mac_match (m @ rest) \<noteq> None"
proof -
  from assms obtain gs where gs: "length gs = 6" "list_all hex_group gs" "m = join '':'' gs"
    unfolding mac_shaped_def by blast
  then obtain fs t where ft: "gs = fs @ [t]"
    by (cases gs rule: rev_cases) auto
  have fs: "length fs = 5" "list_all hex_group fs" and t: "hex_group t"
    using gs ft by simp_all
  have m: "m = colon_groups fs @ t"
    using gs(3) ft by (simp add: join_colon_snoc)
  have "hex_colons (length fs) (colon_groups fs @ (t @ rest)) = Some (colon_groups fs, t @ rest)"
    using fs(2) by (rule hex_colons_groups)
  then have c: "hex_colons (Suc (Suc (Suc (Suc (Suc 0))))) (m @ rest) = Some (colon_groups fs, t @ rest)"
    using fs(1) m by (simp add: eval_nat_numeral)
  have "hex_tail (t @ rest) \<noteq> None"
    using t by (rule hex_tail_group)
  then show ?thesis
    using c by (auto simp: mac_match_def)
qed

lemma mac_match_iff: "mac_match s \<noteq> None \<longleftrightarrow> (\<exists>m. prefix m s \<and> mac_shaped m)"
proof
  assume "mac_match s \<noteq> None"
  then obtain m where "mac_match s = Some m"
    by auto
  then show "\<exists>m. prefix m s \<and> mac_shaped m"
    using mac_match_sound by blast
next
  assume "\<exists>m. prefix m s \<and> mac_shaped m"
  then obtain m rest where "s = m @ rest" "mac_shaped m"
    by (auto simp: prefix_def)
  then show "mac_match s \<noteq> None"
    using mac_match_complete by simp
qed

lemma split_from_skip:
  "sep \<noteq> [] \<Longrightarrow> hd sep \<notin> set e \<Longrightarrow> split_from sep cur (e @ s) = split_from sep (cur @ e) s"
proof (induction e arbitrary: cur)
  case Nil
  then show ?case by simp
next
  case (Cons c e)
  have "\<not> prefix sep (c # e @ s)"
    using Cons.prems by (cases sep) auto
  then have "split_from sep cur ((c # e) @ s) = split_from sep (cur @ [c]) (e @ s)"
    by simp
  also have "\<dots> = split_from sep ((cur @ [c]) @ e) s"
    using Cons by simp
  finally show ?case
    by simp
qed

lemma split_from_sep:
  assumes "sep \<noteq> []"
  shows "split_from sep cur (sep @ s) = cur # split_from sep [] s"
proof -
  obtain a sep' where sep: "sep = a # sep'"
    using assms by (cases sep) auto
  have "split_from sep cur (a # (sep' @ s))
        = (if sep \<noteq> [] \<and> prefix sep (a # (sep' @ s))
           then cur # split_from sep [] (drop (length sep) (a # (sep' @ s)))
           else split_from sep (cur @ [a]) (sep' @ s))"
    by (rule split_from.simps(2))
  moreover have "prefix sep (a # (sep' @ s))"
    using sep by simp
  moreover have "drop (length sep) (a # (sep' @ s)) = s"
    using sep by simp
  ultimately show ?thesis
    using sep by simp
qed

lemma split_from_join:
  "es \<noteq> [] \<Longrightarrow> sep \<noteq> [] \<Longrightarrow> \<forall>e\<in>set es. hd sep \<notin> set e \<Longrightarrow>
     split_from sep cur (join sep es) = (cur @ hd es) # tl es"
proof (induction sep es arbitrary: cur rule: join.induct)
  case (1 sep)
  then show ?case by simp
next
  case (2 sep x)
  have "split_from sep cur (x @ []) = split_from sep (cur @ x) []"
    using 2 by (intro split_from_skip) simp_all
  then show ?case
    by simp
next
  case (3 sep x y ys)
  have "split_from sep cur (x @ (sep @ join sep (y # ys)))
        = split_from sep (cur @ x) (sep @ join sep (y # ys))"
    using 3 by (intro split_from_skip) simp_all
  also have "\<dots> = (cur @ x) # split_from sep [] (join sep (y # ys))"
    using 3 by (intro split_from_sep) simp
  also have "split_from sep [] (join sep (y # ys)) = ([] @ hd (y # ys)) # tl (y # ys)"
    using 3 by (intro "3.IH") simp_all
  finally show ?case
    by simp
qed

lemma split_join:
  assumes "es \<noteq> []" and "sep \<noteq> []" and "\<forall>e\<in>set es. hd sep \<notin> set e"
  shows "split sep (join sep es) = es"
  using split_from_join[OF assms, of "[]"] assms(1) by (simp add: split_def)

lemma join_hd: "es \<noteq> [] \<Longrightarrow> hd es \<noteq> [] \<Longrightarrow> join sep es \<noteq> [] \<and> hd (join sep es) = hd (hd es)"
  by (induction sep es rule: join.induct) auto

lemma join_nonempty_last: "es \<noteq> [] \<Longrightarrow> last es \<noteq> [] \<Longrightarrow> join sep es \<noteq> []"
  by (induction sep es rule: join.induct) auto

lemma join_last: "es \<noteq> [] \<Longrightarrow> last es \<noteq> [] \<Longrightarrow> last (join sep es) = last (last es)"
proof (induction sep es rule: join.induct)
  case (1 sep)
  then show ?case by simp
next
  case (2 sep x)
  then show ?case by simp
next
  case (3 sep x y ys)
  have ne: "last (y # ys) \<noteq> []"
    using "3.prems" by simp
  then have l: "last (join sep (y # ys)) = last (last (y # ys))"
    using "3.IH" by simp
  have "join sep (y # ys) \<noteq> []"
    using ne by (intro join_nonempty_last) simp_all
  then show ?case
    using l by simp
qed

lemma strip_with_body:
  assumes "\<forall>c\<in>set ws1. p c" and "\<forall>c\<in>set ws2. p c"
    and "body \<noteq> []" and "\<not> p (hd body)" and "\<not> p (last body)"
  shows "strip_with p (ws1 @ body @ ws2) = body"
proof -
  obtain b bs where b: "body = b # bs"
    using assms(3) by (cases body) auto
  have front: "dropWhile p (ws1 @ body @ ws2) = body @ ws2"
    using assms(1,4) b by (simp add: dropWhile_append2)
  obtain cs c where c: "body = cs @ [c]"
    using assms(3) by (cases body rule: rev_cases) auto
  have "dropWhile p (rev (body @ ws2)) = dropWhile p (rev ws2 @ rev body)"
    by simp
  also have "\<dots> = dropWhile p (rev body)"
    using assms(2) by (intro dropWhile_append2) simp
  also have "\<dots> = rev body"
    using assms(5) c by simp
  finally show ?thesis
    using front by (simp add: strip_with_def)
qed

lemma not_space_quote: "\<not> isspace (CHR 0x27)"
  by (simp add: isspace_def)

lemma active_macs_quoted:
  assumes es: "es \<noteq> []" "hd es \<noteq> []" "last es \<noteq> []"
    and nq: "\<forall>e\<in>set es. CHR 0x27 \<notin> set e"
    and ws: "\<forall>c\<in>set ws1. isspace c" "\<forall>c\<in>set ws2. isspace c"
  shows "active_macs (ws1 @ quoted_list es @ ws2) = filter (\<lambda>e. mac_match e \<noteq> None) es"
proof -
  let ?sep = "[CHR 0x27, CHR '','', CHR 0x27]"
  let ?J = "join ?sep es"
  have J: "?J \<noteq> []" and hdJ: "hd ?J = hd (hd es)"
    using join_hd[OF es(1,2), of ?sep] by simp_all
  have lastJ: "last ?J = last (last es)"
    using es by (intro join_last)
  have "hd es \<in> set es" and "last es \<in> set es"
    using es(1) by simp_all
  then have "CHR 0x27 \<notin> set (hd es)" and "CHR 0x27 \<notin> set (last es)"
    using nq by blast+
  then have h: "hd ?J \<noteq> CHR 0x27" and l: "last ?J \<noteq> CHR 0x27"
    using hdJ lastJ es(2,3) by (metis hd_in_set, metis last_in_set)
  have q: "quoted_list es \<noteq> [] \<and> \<not> isspace (hd (quoted_list es)) \<and> \<not> isspace (last (quoted_list es))"
    by (simp add: quoted_list_def not_space_quote)
  have s1: "strip (ws1 @ quoted_list es @ ws2) = quoted_list es"
    unfolding strip_def using ws q by (intro strip_with_body) simp_all
  have "strip_with (\<lambda>c. c \<in> set [CHR 0x27]) ([CHR 0x27] @ ?J @ [CHR 0x27]) = ?J"
    using J h l by (intro strip_with_body) simp_all
  then have s2: "strip_chars [CHR 0x27] (quoted_list es) = ?J"
    by (simp add: strip_chars_def quoted_list_def)
  have s3: "split ?sep ?J = es"
    using es(1) nq by (intro split_join) simp_all
  show ?thesis
    by (simp add: active_macs_def s1 s2 s3)
qed

lemma update_info_body_active:
  assumes "success_init sc"
    and "reply w (length (sent w)) (wireless_url sc) (username sc, password sc) = Response 200 text"
    and "map_of (parse_ddwrt_response text) ''active_wireless'' = Some active_clients"
    and "active_clients \<noteq> []"
  shows "update_info_body sc w
         = (Inr True, sc\<lparr>last_results := active_macs active_clients\<rparr>,
            w\<lparr>sent := sent w @ [(clock w, wireless_url sc)]\<rparr>)"
proof -
  have "parse_ddwrt_response text \<noteq> []"
    using assms(3) by auto
  then show ?thesis
    using assms get_ddwrt_data_ok[OF assms(2)] by (simp add: update_info_body_def)
qed

lemma active_macs_example:
  "active_macs (quoted_list [''AA:BB:CC:DD:EE:FF'', ''not-a-mac'', ''11:22:33:44:55:66''])
   = [''AA:BB:CC:DD:EE:FF'', ''11:22:33:44:55:66'']"
  by (simp add: active_macs_def quoted_list_def strip_def strip_chars_def strip_with_def
      isspace_def split_def mac_match_def is_hex_def)

text \<open>
  C4 as the code has it. A refresh that gets a page with an \<open>active_wireless\<close> field that
  is not empty makes the active-client list its result. For a field value that is a list
  of entries in single quotes, separated by commas (no quote inside an entry, the first
  and the last entry not empty), with white space around it or not, that list is the
  entries that begin with a hardware address, in their order and as they are written:
  no letter changes case. An entry is kept exactly when a text of the grammar (six groups
  of one or two hex digits, colons between them) is a prefix of it. The input of the
  example yields its two address entries.
\<close>

theorem active_clients_extraction:
  "(success_init sc
      \<and> reply w (length (sent w)) (wireless_url sc) (username sc, password sc) = Response 200 text
      \<and> map_of (parse_ddwrt_response text) ''active_wireless'' = Some active_clients
      \<and> active_clients \<noteq> [] \<longrightarrow>
      fst (update_info_body sc w) = Inr True
      \<and> last_results (fst (snd (update_info_body sc w))) = active_macs active_clients)
   \<and> (es \<noteq> [] \<and> hd es \<noteq> [] \<and> last es \<noteq> [] \<and> (\<forall>e\<in>set es. CHR 0x27 \<notin> set e)
      \<and> (\<forall>c\<in>set ws1. isspace c) \<and> (\<forall>c\<in>set ws2. isspace c) \<longrightarrow>
      active_macs (ws1 @ quoted_list es @ ws2) = filter (\<lambda>e. mac_match e \<noteq> None) es)
   \<and> (mac_match item \<noteq> None \<longleftrightarrow> (\<exists>m. prefix m item \<and> mac_shaped m))
   \<and> active_macs (quoted_list [''AA:BB:CC:DD:EE:FF'', ''not-a-mac'', ''11:22:33:44:55:66''])
      = [''AA:BB:CC:DD:EE:FF'', ''11:22:33:44:55:66'']"
proof -
  have "success_init sc
      \<and> reply w (length (sent w)) (wireless_url sc) (username sc, password sc) = Response 200 text
      \<and> map_of (parse_ddwrt_response text) ''active_wireless'' = Some active_clients
      \<and> active_clients \<noteq> [] \<longrightarrow>
      fst (update_info_body sc w) = Inr True
      \<and> last_results (fst (snd (update_info_body sc w))) = active_macs active_clients"
    using update_info_body_active[of sc w _ active_clients] by simp
  moreover have "es \<noteq> [] \<and> hd es \<noteq> [] \<and> last es \<noteq> [] \<and> (\<forall>e\<in>set es. CHR 0x27 \<notin> set e)
      \<and> (\<forall>c\<in>set ws1. isspace c) \<and> (\<forall>c\<in>set ws2. isspace c) \<longrightarrow>
      active_macs (ws1 @ quoted_list es @ ws2) = filter (\<lambda>e. mac_match e \<noteq> None) es"
    using active_macs_quoted[of es ws1 ws2] by blast
  ultimately show ?thesis
    using mac_match_iff[of item] active_macs_example by blast
qed

definition wireless_entries :: "string list" where
  "wireless_entries = [''aa:bb:cc:dd:ee:ff'', ''eth1'', ''1:2:3:4:5:6'']"

lemma wireless_field:
  "map_of (parse_ddwrt_response (token ''active_wireless'' (quoted_list wireless_entries)))
     ''active_wireless'' = Some (quoted_list wireless_entries)"
proof -
  have "findall (token ''active_wireless'' (quoted_list wireless_entries) @ [])
        = (''active_wireless'', quoted_list wireless_entries) # findall []"
    by (rule findall_token) (simp_all add: is_word_def quoted_list_def wireless_entries_def)
  then show ?thesis
    by (simp add: parse_ddwrt_response_def)
qed

theorem active_clients_extraction_witness:
  "success_init home_router
   \<and> quoted_list wireless_entries \<noteq> []
   \<and> last_results (fst (snd (update_info_body home_router
        (router_world (Response 200 (token ''active_wireless'' (quoted_list wireless_entries)))))))
      = [''aa:bb:cc:dd:ee:ff'', ''1:2:3:4:5:6'']
   \<and> wireless_entries \<noteq> [] \<and> hd wireless_entries \<noteq> [] \<and> last wireless_entries \<noteq> []
   \<and> list_all (\<lambda>e. CHR 0x27 \<notin> set e) wireless_entries
   \<and> list_all isspace [CHR 0x20, CHR 0x09] \<and> list_all isspace [CHR 0x0A]
   \<and> active_macs ([CHR 0x20, CHR 0x09] @ quoted_list wireless_entries @ [CHR 0x0A])
      = [''aa:bb:cc:dd:ee:ff'', ''1:2:3:4:5:6'']"
proof -
  let ?w = "router_world (Response 200 (token ''active_wireless'' (quoted_list wireless_entries)))"
  note t = active_clients_extraction[of home_router ?w
      "token ''active_wireless'' (quoted_list wireless_entries)" "quoted_list wireless_entries"
      wireless_entries "[CHR 0x20, CHR 0x09]" "[CHR 0x0A]" "''1:2:3:4:5:6''"]
  have i: "success_init home_router"
    by (simp add: home_router_def)
  have r: "reply ?w (length (sent ?w)) (wireless_url home_router)
             (username home_router, password home_router)
           = Response 200 (token ''active_wireless'' (quoted_list wireless_entries))"
    by (simp add: router_world_def)
  have ne: "quoted_list wireless_entries \<noteq> []"
    by (simp add: quoted_list_def)
  have es: "wireless_entries \<noteq> [] \<and> hd wireless_entries \<noteq> [] \<and> last wireless_entries \<noteq> []
            \<and> list_all (\<lambda>e. CHR 0x27 \<notin> set e) wireless_entries"
    by (simp add: wireless_entries_def)
  have ws: "list_all isspace [CHR 0x20, CHR 0x09] \<and> list_all isspace [CHR 0x0A]"
    by (simp add: isspace_def)
  have f: "filter (\<lambda>e. mac_match e \<noteq> None) wireless_entries = [''aa:bb:cc:dd:ee:ff'', ''1:2:3:4:5:6'']"
    by (simp add: wireless_entries_def mac_match_def is_hex_def)
  have a: "active_macs ([CHR 0x20, CHR 0x09] @ quoted_list wireless_entries @ [CHR 0x0A])
           = filter (\<lambda>e. mac_match e \<noteq> None) wireless_entries"
    using t es ws by (simp add: list_all_iff)
  have b: "active_macs (quoted_list wireless_entries) = filter (\<lambda>e. mac_match e \<noteq> None) wireless_entries"
    using active_macs_quoted[of wireless_entries "[]" "[]"] es by (simp add: list_all_iff)
  have c: "last_results (fst (snd (update_info_body home_router ?w)))
           = active_macs (quoted_list wireless_entries)"
    using t i r wireless_field ne by blast
  show ?thesis
    using i ne es ws a b c f by simp
qed

text \<open>
  The claim as it is written fails: an entry in small letters is kept in small letters,
  and every leading quote is stripped, not one layer, so a list whose first entry is
  empty loses its delimiter and the address behind it.
\<close>

theorem active_clients_case_kept:
  "active_macs (quoted_list [''aa:bb:cc:dd:ee:ff'', ''not-a-mac'', ''11:22:33:44:55:6f''])
   = [''aa:bb:cc:dd:ee:ff'', ''11:22:33:44:55:6f'']
   \<and> upper ''aa:bb:cc:dd:ee:ff'' \<noteq> ''aa:bb:cc:dd:ee:ff''
   \<and> upper ''11:22:33:44:55:6f'' \<noteq> ''11:22:33:44:55:6f''
   \<and> active_macs (quoted_list ['''', ''AA:BB:CC:DD:EE:FF'']) = []"
  by (simp add: active_macs_def quoted_list_def strip_def strip_chars_def strip_with_def
      isspace_def split_def mac_match_def is_hex_def upper_def upper_char_def char_of_def
      bit_Suc_0_iff)

section \<open>Letter case of hardware addresses\<close>
























section \<open>The throttle over a sequence of calls\<close>

fun ddwrt_calls :: "int list \<Rightarrow> ddwrt_scanner \<times> world \<Rightarrow> ddwrt_scanner \<times> world" where
  \<comment> \<open>\<open>scan_devices()\<close> called once at each of the clock readings, in order\<close>
  "ddwrt_calls [] st = st"
| "ddwrt_calls (t # ts) st =
     (case scan_devices (fst st) ((snd st)\<lparr>clock := t\<rparr>) of (r, sc', w') \<Rightarrow> ddwrt_calls ts (sc', w'))"

fun nmap_calls :: "int list \<Rightarrow> nmap_scanner \<times> world \<Rightarrow> nmap_scanner \<times> world" where
  "nmap_calls [] st = st"
| "nmap_calls (t # ts) st =
     (case nmap_scan_devices (fst st) ((snd st)\<lparr>clock := t\<rparr>) of (r, sc', w') \<Rightarrow> nmap_calls ts (sc', w'))"

fun spaced :: "int \<Rightarrow> int list \<Rightarrow> bool" where
  \<comment> \<open>each time of the list is at least \<open>m\<close> after every earlier one\<close>
  "spaced m [] = True"
| "spaced m (t # ts) = (list_all (\<lambda>u. m \<le> u - t) ts \<and> spaced m ts)"

definition throttle_inv :: "throttle_state \<Rightarrow> int list \<Rightarrow> bool" where
  \<comment> \<open>the logged times are spaced, and none is later than the last refresh\<close>
  "throttle_inv ts log =
     (spaced MIN_TIME_BETWEEN_SCANS log
      \<and> list_all (\<lambda>u. case lastRefreshAt ts of None \<Rightarrow> False | Some l \<Rightarrow> u \<le> l) log)"

lemma spaced_snoc: "spaced m (log @ [t]) \<longleftrightarrow> spaced m log \<and> list_all (\<lambda>u. m \<le> t - u) log"
  by (induction log) auto

lemma throttle_inv_same:
  "throttle_inv ts log \<Longrightarrow> lastRefreshAt ts' = Some t \<Longrightarrow> due MIN_TIME_BETWEEN_SCANS ts t \<Longrightarrow>
     throttle_inv ts' log"
  by (auto simp: throttle_inv_def due_def list_all_iff MIN_TIME_BETWEEN_SCANS_def
      split: option.splits)

lemma throttle_inv_snoc:
  "throttle_inv ts log \<Longrightarrow> lastRefreshAt ts' = Some t \<Longrightarrow> due MIN_TIME_BETWEEN_SCANS ts t \<Longrightarrow>
     throttle_inv ts' (log @ [t])"
  by (auto simp: throttle_inv_def due_def list_all_iff spaced_snoc MIN_TIME_BETWEEN_SCANS_def
      split: option.splits)

lemma get_ddwrt_data_sent:
  "sent (snd (get_ddwrt_data url sc w)) = sent w @ [(clock w, url)]"
  by (simp add: get_ddwrt_data_def Let_def split: http_outcome.splits request_error.splits)

lemma update_info_body_effect:
  "throttle (fst (snd (update_info_body sc w))) = throttle sc
   \<and> success_init (fst (snd (update_info_body sc w))) = success_init sc
   \<and> host (fst (snd (update_info_body sc w))) = host sc
   \<and> sent (snd (snd (update_info_body sc w)))
     = (if success_init sc then sent w @ [(clock w, wireless_url sc)] else sent w)"
proof (cases "success_init sc")
  case False
  then show ?thesis
    by (simp add: update_info_body_def)
next
  case True
  obtain r w' where g: "get_ddwrt_data (wireless_url sc) sc w = (r, w')"
    by (cases "get_ddwrt_data (wireless_url sc) sc w")
  have s: "sent w' = sent w @ [(clock w, wireless_url sc)]"
    using get_ddwrt_data_sent[of "wireless_url sc" sc w] g by simp
  show ?thesis
    using True g s
    by (auto simp: update_info_body_def Let_def split: sum.splits option.splits)
qed

lemma update_info_throttled:
  "\<not> due MIN_TIME_BETWEEN_SCANS (throttle sc) (clock w) \<Longrightarrow>
     update_info sc w = (Inr (lastStatus (throttle sc)), sc, w)"
  by (simp add: update_info_def)

lemma scan_devices_throttled:
  "\<not> due MIN_TIME_BETWEEN_SCANS (throttle sc) (clock w) \<Longrightarrow>
     scan_devices sc w = (Inr (last_results sc), sc, w)"
  by (simp add: scan_devices_def update_info_throttled)

lemma update_info_due_effect:
  assumes "due MIN_TIME_BETWEEN_SCANS (throttle sc) (clock w)"
  shows "lastRefreshAt (throttle (fst (snd (update_info sc w)))) = Some (clock w)
         \<and> success_init (fst (snd (update_info sc w))) = success_init sc
         \<and> host (fst (snd (update_info sc w))) = host sc
         \<and> sent (snd (snd (update_info sc w)))
           = (if success_init sc then sent w @ [(clock w, wireless_url sc)] else sent w)"
proof -
  let ?sc0 = "sc\<lparr>throttle := (throttle sc)\<lparr>lastRefreshAt := Some (clock w)\<rparr>\<rparr>"
  obtain r sc' w' where b: "update_info_body ?sc0 w = (r, sc', w')"
    by (cases "update_info_body ?sc0 w") auto
  have e: "throttle sc' = throttle ?sc0 \<and> success_init sc' = success_init ?sc0 \<and> host sc' = host ?sc0
           \<and> sent w' = (if success_init ?sc0 then sent w @ [(clock w, wireless_url ?sc0)] else sent w)"
    using update_info_body_effect[of ?sc0 w] b by simp
  have u: "wireless_url ?sc0 = wireless_url sc"
    by (simp add: wireless_url_def)
  show ?thesis
    using assms b e u by (cases r) (simp_all add: update_info_def Let_def)
qed

lemma scan_devices_state:
  "fst (snd (scan_devices sc w)) = fst (snd (update_info sc w))
   \<and> snd (snd (scan_devices sc w)) = snd (snd (update_info sc w))"
proof -
  obtain r sc' w' where u: "update_info sc w = (r, sc', w')"
    by (cases "update_info sc w") auto
  then show ?thesis
    by (cases r) (simp_all add: scan_devices_def)
qed

lemma scan_devices_inv:
  assumes "throttle_inv (throttle sc) (map fst (sent w))"
  shows "throttle_inv (throttle (fst (snd (scan_devices sc (w\<lparr>clock := t\<rparr>)))))
           (map fst (sent (snd (snd (scan_devices sc (w\<lparr>clock := t\<rparr>))))))"
proof (cases "due MIN_TIME_BETWEEN_SCANS (throttle sc) t")
  case False
  then show ?thesis
    using assms scan_devices_throttled[of sc "w\<lparr>clock := t\<rparr>"] by simp
next
  case True
  let ?w = "w\<lparr>clock := t\<rparr>"
  let ?sc' = "fst (snd (scan_devices sc ?w))"
  let ?w' = "snd (snd (scan_devices sc ?w))"
  have e: "lastRefreshAt (throttle ?sc') = Some t
           \<and> sent ?w' = (if success_init sc then sent w @ [(t, wireless_url sc)] else sent w)"
    using update_info_due_effect[of sc ?w] True scan_devices_state[of sc ?w] by simp
  show ?thesis
  proof (cases "success_init sc")
    case True
    then have "map fst (sent ?w') = map fst (sent w) @ [t]"
      using e by simp
    then show ?thesis
      using throttle_inv_snoc[OF assms, of "throttle ?sc'" t] e \<open>due _ _ t\<close> by simp
  next
    case False
    then have "map fst (sent ?w') = map fst (sent w)"
      using e by simp
    then show ?thesis
      using throttle_inv_same[OF assms, of "throttle ?sc'" t] e \<open>due _ _ t\<close> by simp
  qed
qed

lemma ddwrt_calls_inv:
  "throttle_inv (throttle sc) (map fst (sent w)) \<Longrightarrow>
     throttle_inv (throttle (fst (ddwrt_calls ts (sc, w)))) (map fst (sent (snd (ddwrt_calls ts (sc, w)))))"
proof (induction ts arbitrary: sc w)
  case Nil
  then show ?case by simp
next
  case (Cons t ts)
  obtain r sc' w' where s: "scan_devices sc (w\<lparr>clock := t\<rparr>) = (r, sc', w')"
    by (cases "scan_devices sc (w\<lparr>clock := t\<rparr>)") auto
  have "throttle_inv (throttle sc') (map fst (sent w'))"
    using scan_devices_inv[OF Cons.prems, of t] s by simp
  then have "throttle_inv (throttle (fst (ddwrt_calls ts (sc', w'))))
               (map fst (sent (snd (ddwrt_calls ts (sc', w')))))"
    by (rule Cons.IH)
  then show ?case
    using s by simp
qed

lemma ddwrt_calls_spaced:
  assumes "sent w = []"
  shows "spaced MIN_TIME_BETWEEN_SCANS (map fst (sent (snd (ddwrt_calls ts (sc, w)))))"
proof -
  have "throttle_inv (throttle sc) (map fst (sent w))"
    using assms by (simp add: throttle_inv_def)
  then show ?thesis
    using ddwrt_calls_inv[of sc w ts] by (simp add: throttle_inv_def)
qed

lemma nmap_body_effect:
  "nmap_throttle (fst (snd (nmap_update_info_body sc w))) = nmap_throttle sc
   \<and> made (snd (snd (nmap_update_info_body sc w))) = made w @ [clock w]
   \<and> scanner_new (snd (snd (nmap_update_info_body sc w))) = scanner_new w
   \<and> map fst (probes (snd (snd (nmap_update_info_body sc w))))
     = (if scanner_new w (length (made w)) = None then map fst (probes w) @ [clock w]
        else map fst (probes w))"
proof (cases "scanner_new w (length (made w))")
  case (Some e)
  then show ?thesis
    by (simp add: nmap_body_no_scanner)
next
  case None
  let ?kept = "carried_over sc (clock w)"
  let ?w1 = "probed_world sc w"
  obtain out el where p: "probe w (length (probes w)) (hosts sc) (nmap_options ?kept) = (out, el)"
    by (cases "probe w (length (probes w)) (hosts sc) (nmap_options ?kept)")
  have w1: "made ?w1 = made w @ [clock w] \<and> scanner_new ?w1 = scanner_new w
            \<and> map fst (probes ?w1) = map fst (probes w) @ [clock w]"
    by (simp add: probed_world_def)
  show ?thesis
  proof (cases out)
    case (ScanRaises e)
    then show ?thesis
      using nmap_body_scan_raises[OF None, of sc e el] p w1 None by simp
  next
    case (Scan items)
    let ?w2 = "snd (scan_items (clock w + el) items ([], ?w1))"
    have "made ?w2 = made ?w1 \<and> scanner_new ?w2 = scanner_new ?w1 \<and> probes ?w2 = probes ?w1"
      using scan_items_keeps[of "clock w + el" items "[]" ?w1] by simp
    then have w2: "made ?w2 = made w @ [clock w] \<and> scanner_new ?w2 = scanner_new w
                   \<and> map fst (probes ?w2) = map fst (probes w) @ [clock w]"
      using w1 by simp
    show ?thesis
      using nmap_body_loop[OF None, of sc items el] p Scan w2 None
      by (cases "freshly_probed (clock w + el) items ?w1") simp_all
  qed
qed

lemma nmap_scan_devices_throttled:
  "\<not> due MIN_TIME_BETWEEN_SCANS (nmap_throttle sc) (clock w) \<Longrightarrow>
     nmap_scan_devices sc w = (Inr (map mac (nmap_last_results sc)), sc, w)"
  by (simp add: nmap_scan_devices_def nmap_update_info_def)

lemma nmap_scan_devices_due_effect:
  assumes "due MIN_TIME_BETWEEN_SCANS (nmap_throttle sc) (clock w)"
  shows "lastRefreshAt (nmap_throttle (fst (snd (nmap_scan_devices sc w)))) = Some (clock w)
         \<and> made (snd (snd (nmap_scan_devices sc w))) = made w @ [clock w]
         \<and> scanner_new (snd (snd (nmap_scan_devices sc w))) = scanner_new w
         \<and> map fst (probes (snd (snd (nmap_scan_devices sc w))))
           = (if scanner_new w (length (made w)) = None then map fst (probes w) @ [clock w]
              else map fst (probes w))"
proof -
  let ?sc0 = "sc\<lparr>nmap_throttle := (nmap_throttle sc)\<lparr>lastRefreshAt := Some (clock w)\<rparr>\<rparr>"
  obtain r sc' w' where b: "nmap_update_info_body ?sc0 w = (r, sc', w')"
    by (cases "nmap_update_info_body ?sc0 w") auto
  have e: "nmap_throttle sc' = nmap_throttle ?sc0 \<and> made w' = made w @ [clock w]
        \<and> scanner_new w' = scanner_new w
        \<and> map fst (probes w')
          = (if scanner_new w (length (made w)) = None then map fst (probes w) @ [clock w]
             else map fst (probes w))"
    using nmap_body_effect[of ?sc0 w] b by simp
  show ?thesis
    using assms b e by (cases r) (simp_all add: nmap_scan_devices_def nmap_update_info_def Let_def)
qed

lemma nmap_scan_devices_inv:
  assumes "throttle_inv (nmap_throttle sc) (map fst (probes w))"
  shows "throttle_inv (nmap_throttle (fst (snd (nmap_scan_devices sc (w\<lparr>clock := t\<rparr>)))))
           (map fst (probes (snd (snd (nmap_scan_devices sc (w\<lparr>clock := t\<rparr>))))))"
proof (cases "due MIN_TIME_BETWEEN_SCANS (nmap_throttle sc) t")
  case False
  then show ?thesis
    using assms nmap_scan_devices_throttled[of sc "w\<lparr>clock := t\<rparr>"] by simp
next
  case True
  let ?w = "w\<lparr>clock := t\<rparr>"
  let ?sc' = "fst (snd (nmap_scan_devices sc ?w))"
  let ?w' = "snd (snd (nmap_scan_devices sc ?w))"
  have e: "lastRefreshAt (nmap_throttle ?sc') = Some t
           \<and> (map fst (probes ?w') = map fst (probes w) @ [t] \<or> map fst (probes ?w') = map fst (probes w))"
    using nmap_scan_devices_due_effect[of sc ?w] True by simp
  then show ?thesis
    using throttle_inv_snoc[OF assms, of "nmap_throttle ?sc'" t]
      throttle_inv_same[OF assms, of "nmap_throttle ?sc'" t] True by auto
qed

lemma nmap_scan_devices_made_inv:
  assumes "throttle_inv (nmap_throttle sc) (made w)"
  shows "throttle_inv (nmap_throttle (fst (snd (nmap_scan_devices sc (w\<lparr>clock := t\<rparr>)))))
           (made (snd (snd (nmap_scan_devices sc (w\<lparr>clock := t\<rparr>)))))"
proof (cases "due MIN_TIME_BETWEEN_SCANS (nmap_throttle sc) t")
  case False
  then show ?thesis
    using assms nmap_scan_devices_throttled[of sc "w\<lparr>clock := t\<rparr>"] by simp
next
  case True
  let ?w = "w\<lparr>clock := t\<rparr>"
  let ?sc' = "fst (snd (nmap_scan_devices sc ?w))"
  let ?w' = "snd (snd (nmap_scan_devices sc ?w))"
  have e: "lastRefreshAt (nmap_throttle ?sc') = Some t \<and> made ?w' = made w @ [t]"
    using nmap_scan_devices_due_effect[of sc ?w] True by simp
  then show ?thesis
    using throttle_inv_snoc[OF assms, of "nmap_throttle ?sc'" t] True by simp
qed

lemma nmap_calls_inv:
  "throttle_inv (nmap_throttle sc) (map fst (probes w)) \<Longrightarrow>
     throttle_inv (nmap_throttle (fst (nmap_calls ts (sc, w))))
       (map fst (probes (snd (nmap_calls ts (sc, w)))))"
proof (induction ts arbitrary: sc w)
  case Nil
  then show ?case by simp
next
  case (Cons t ts)
  obtain r sc' w' where s: "nmap_scan_devices sc (w\<lparr>clock := t\<rparr>) = (r, sc', w')"
    by (cases "nmap_scan_devices sc (w\<lparr>clock := t\<rparr>)") auto
  have "throttle_inv (nmap_throttle sc') (map fst (probes w'))"
    using nmap_scan_devices_inv[OF Cons.prems, of t] s by simp
  then have "throttle_inv (nmap_throttle (fst (nmap_calls ts (sc', w'))))
               (map fst (probes (snd (nmap_calls ts (sc', w')))))"
    by (rule Cons.IH)
  then show ?case
    using s by simp
qed

lemma nmap_calls_made_inv:
  "throttle_inv (nmap_throttle sc) (made w) \<Longrightarrow>
     throttle_inv (nmap_throttle (fst (nmap_calls ts (sc, w)))) (made (snd (nmap_calls ts (sc, w))))"
proof (induction ts arbitrary: sc w)
  case Nil
  then show ?case by simp
next
  case (Cons t ts)
  obtain r sc' w' where s: "nmap_scan_devices sc (w\<lparr>clock := t\<rparr>) = (r, sc', w')"
    by (cases "nmap_scan_devices sc (w\<lparr>clock := t\<rparr>)") auto
  have "throttle_inv (nmap_throttle sc') (made w')"
    using nmap_scan_devices_made_inv[OF Cons.prems, of t] s by simp
  then have "throttle_inv (nmap_throttle (fst (nmap_calls ts (sc', w'))))
               (made (snd (nmap_calls ts (sc', w'))))"
    by (rule Cons.IH)
  then show ?case
    using s by simp
qed

lemma nmap_calls_spaced:
  assumes "probes w = []"
  shows "spaced MIN_TIME_BETWEEN_SCANS (map fst (probes (snd (nmap_calls ts (sc, w)))))"
proof -
  have "throttle_inv (nmap_throttle sc) (map fst (probes w))"
    using assms by (simp add: throttle_inv_def)
  then show ?thesis
    using nmap_calls_inv[of sc w ts] by (simp add: throttle_inv_def)
qed

lemma nmap_calls_made_spaced:
  assumes "made w = []"
  shows "spaced MIN_TIME_BETWEEN_SCANS (made (snd (nmap_calls ts (sc, w))))"
proof -
  have "throttle_inv (nmap_throttle sc) (made w)"
    using assms by (simp add: throttle_inv_def)
  then show ?thesis
    using nmap_calls_made_inv[of sc w ts] by (simp add: throttle_inv_def)
qed

lemma due_none: "lastRefreshAt ts = None \<Longrightarrow> due m ts t"
  by (simp add: due_def)

lemma due_after: "lastRefreshAt ts = Some l \<Longrightarrow> due MIN_TIME_BETWEEN_SCANS ts t \<longleftrightarrow> 5000000 \<le> t - l"
  by (simp add: due_def MIN_TIME_BETWEEN_SCANS_def)

lemma ddwrt_two_calls:
  assumes fresh: "lastRefreshAt (throttle sc) = None" and i: "success_init sc"
  shows "length (sent (snd (ddwrt_calls [t, t + 1000000] (sc, w)))) = length (sent w) + 1
         \<and> length (sent (snd (ddwrt_calls [t, t + 6000000] (sc, w)))) = length (sent w) + 2"
proof -
  let ?w = "w\<lparr>clock := t\<rparr>"
  obtain r1 sc1 w1 where s1: "scan_devices sc ?w = (r1, sc1, w1)"
    by (cases "scan_devices sc ?w") auto
  have d1: "due MIN_TIME_BETWEEN_SCANS (throttle sc) (clock ?w)"
    using fresh by (rule due_none)
  have e1: "lastRefreshAt (throttle sc1) = Some t \<and> success_init sc1
            \<and> sent w1 = sent w @ [(t, wireless_url sc)]"
    using update_info_due_effect[OF d1] scan_devices_state[of sc ?w] s1 i by simp
  have n: "\<not> due MIN_TIME_BETWEEN_SCANS (throttle sc1) (clock (w1\<lparr>clock := t + 1000000\<rparr>))"
    using e1 by (simp add: due_after)
  have a: "ddwrt_calls [t, t + 1000000] (sc, w) = (sc1, w1\<lparr>clock := t + 1000000\<rparr>)"
    using s1 scan_devices_throttled[OF n] by simp
  let ?w6 = "w1\<lparr>clock := t + 6000000\<rparr>"
  obtain r2 sc2 w2 where s2: "scan_devices sc1 ?w6 = (r2, sc2, w2)"
    by (cases "scan_devices sc1 ?w6") auto
  have d2: "due MIN_TIME_BETWEEN_SCANS (throttle sc1) (clock ?w6)"
    using e1 by (simp add: due_after)
  have e2: "sent w2 = sent w1 @ [(t + 6000000, wireless_url sc1)]"
    using update_info_due_effect[OF d2] scan_devices_state[of sc1 ?w6] s2 e1 by simp
  have b: "ddwrt_calls [t, t + 6000000] (sc, w) = (sc2, w2)"
    using s1 s2 by simp
  show ?thesis
    using a b e1 e2 by simp
qed

lemma nmap_two_calls:
  assumes fresh: "lastRefreshAt (nmap_throttle sc) = None"
  shows "length (made (snd (nmap_calls [t, t + 1000000] (sc, w)))) = length (made w) + 1
         \<and> length (made (snd (nmap_calls [t, t + 6000000] (sc, w)))) = length (made w) + 2
         \<and> ((\<forall>n. scanner_new w n = None) \<longrightarrow>
              length (probes (snd (nmap_calls [t, t + 1000000] (sc, w)))) = length (probes w) + 1
              \<and> length (probes (snd (nmap_calls [t, t + 6000000] (sc, w)))) = length (probes w) + 2)"
proof -
  let ?w = "w\<lparr>clock := t\<rparr>"
  obtain r1 sc1 w1 where s1: "nmap_scan_devices sc ?w = (r1, sc1, w1)"
    by (cases "nmap_scan_devices sc ?w") auto
  have d1: "due MIN_TIME_BETWEEN_SCANS (nmap_throttle sc) (clock ?w)"
    using fresh by (rule due_none)
  have e1: "lastRefreshAt (nmap_throttle sc1) = Some t
            \<and> made w1 = made w @ [t] \<and> scanner_new w1 = scanner_new w
            \<and> map fst (probes w1)
              = (if scanner_new w (length (made w)) = None then map fst (probes w) @ [t]
                 else map fst (probes w))"
    using nmap_scan_devices_due_effect[OF d1] s1 by simp
  have n: "\<not> due MIN_TIME_BETWEEN_SCANS (nmap_throttle sc1) (clock (w1\<lparr>clock := t + 1000000\<rparr>))"
    using e1 by (simp add: due_after)
  have a: "nmap_calls [t, t + 1000000] (sc, w) = (sc1, w1\<lparr>clock := t + 1000000\<rparr>)"
    using s1 nmap_scan_devices_throttled[OF n] by simp
  let ?w6 = "w1\<lparr>clock := t + 6000000\<rparr>"
  obtain r2 sc2 w2 where s2: "nmap_scan_devices sc1 ?w6 = (r2, sc2, w2)"
    by (cases "nmap_scan_devices sc1 ?w6") auto
  have d2: "due MIN_TIME_BETWEEN_SCANS (nmap_throttle sc1) (clock ?w6)"
    using e1 by (simp add: due_after)
  have e2: "made w2 = made w1 @ [t + 6000000]
            \<and> map fst (probes w2)
              = (if scanner_new w1 (length (made w1)) = None then map fst (probes w1) @ [t + 6000000]
                 else map fst (probes w1))"
    using nmap_scan_devices_due_effect[OF d2] s2 by simp
  have b: "nmap_calls [t, t + 6000000] (sc, w) = (sc2, w2)"
    using s1 s2 by simp
  have m: "length (made (snd (nmap_calls [t, t + 1000000] (sc, w)))) = length (made w) + 1
           \<and> length (made (snd (nmap_calls [t, t + 6000000] (sc, w)))) = length (made w) + 2"
    using a b e1 e2 by simp
  have p: "(\<forall>n. scanner_new w n = None) \<longrightarrow>
              length (probes (snd (nmap_calls [t, t + 1000000] (sc, w)))) = length (probes w) + 1
              \<and> length (probes (snd (nmap_calls [t, t + 6000000] (sc, w)))) = length (probes w) + 2"
  proof
    assume all: "\<forall>n. scanner_new w n = None"
    then have p1: "map fst (probes w1) = map fst (probes w) @ [t]"
      using e1 by simp
    have "scanner_new w1 (length (made w1)) = None"
      using all e1 by simp
    then have p2: "map fst (probes w2) = map fst (probes w1) @ [t + 6000000]"
      using e2 by simp
    have l1: "length (probes w1) = length (probes w) + 1"
      using p1 by (metis length_map length_append_singleton Suc_eq_plus1)
    have l2: "length (probes w2) = length (probes w1) + 1"
      using p2 by (metis length_map length_append_singleton Suc_eq_plus1)
    show "length (probes (snd (nmap_calls [t, t + 1000000] (sc, w)))) = length (probes w) + 1
          \<and> length (probes (snd (nmap_calls [t, t + 6000000] (sc, w)))) = length (probes w) + 2"
      using a b l1 l2 by simp
  qed
  show ?thesis
    using m p by blast
qed

text \<open>
  C2, with the throttle as the spec describes it. Whatever the clock readings of a
  sequence of \<open>scan_devices()\<close> calls are, the requests of the router-poll scanner, and
  the constructions of a port scanner and the probes of the sweep scanner, that the calls
  make are logged at times each at least 5 seconds after every earlier one. A call inside
  the throttle window leaves scanner and world as they were (no request, no probe) and
  returns the cached result. From a scanner that has not refreshed yet, two calls 1
  second apart make exactly one request (one execution of the sweep's refresh, which
  begins with the construction of the port scanner; one probe when the port scanner can
  be constructed), and two calls 6 seconds apart make two.
\<close>

theorem throttle_spacing:
  "(sent w = [] \<longrightarrow> spaced MIN_TIME_BETWEEN_SCANS (map fst (sent (snd (ddwrt_calls ts (sc, w))))))
   \<and> (probes w = [] \<longrightarrow>
        spaced MIN_TIME_BETWEEN_SCANS (map fst (probes (snd (nmap_calls ts (nsc, w))))))
   \<and> (made w = [] \<longrightarrow> spaced MIN_TIME_BETWEEN_SCANS (made (snd (nmap_calls ts (nsc, w)))))
   \<and> (\<not> due MIN_TIME_BETWEEN_SCANS (throttle sc) (clock w) \<longrightarrow>
        scan_devices sc w = (Inr (last_results sc), sc, w))
   \<and> (\<not> due MIN_TIME_BETWEEN_SCANS (nmap_throttle nsc) (clock w) \<longrightarrow>
        nmap_scan_devices nsc w = (Inr (map mac (nmap_last_results nsc)), nsc, w))
   \<and> (lastRefreshAt (throttle sc) = None \<and> success_init sc \<longrightarrow>
        length (sent (snd (ddwrt_calls [t, t + 1000000] (sc, w)))) = length (sent w) + 1
        \<and> length (sent (snd (ddwrt_calls [t, t + 6000000] (sc, w)))) = length (sent w) + 2)
   \<and> (lastRefreshAt (nmap_throttle nsc) = None \<longrightarrow>
        length (made (snd (nmap_calls [t, t + 1000000] (nsc, w)))) = length (made w) + 1
        \<and> length (made (snd (nmap_calls [t, t + 6000000] (nsc, w)))) = length (made w) + 2)
   \<and> (lastRefreshAt (nmap_throttle nsc) = None \<and> (\<forall>n. scanner_new w n = None) \<longrightarrow>
        length (probes (snd (nmap_calls [t, t + 1000000] (nsc, w)))) = length (probes w) + 1
        \<and> length (probes (snd (nmap_calls [t, t + 6000000] (nsc, w)))) = length (probes w) + 2)
   \<and> MIN_TIME_BETWEEN_SCANS = 5 * 1000000"
proof -
  have 1: "sent w = [] \<longrightarrow> spaced MIN_TIME_BETWEEN_SCANS (map fst (sent (snd (ddwrt_calls ts (sc, w)))))"
    using ddwrt_calls_spaced[of w ts sc] by blast
  have 2: "probes w = [] \<longrightarrow>
        spaced MIN_TIME_BETWEEN_SCANS (map fst (probes (snd (nmap_calls ts (nsc, w)))))"
    using nmap_calls_spaced[of w ts nsc] by blast
  have 8: "made w = [] \<longrightarrow> spaced MIN_TIME_BETWEEN_SCANS (made (snd (nmap_calls ts (nsc, w))))"
    using nmap_calls_made_spaced[of w ts nsc] by blast
  have 3: "\<not> due MIN_TIME_BETWEEN_SCANS (throttle sc) (clock w) \<longrightarrow>
        scan_devices sc w = (Inr (last_results sc), sc, w)"
    using scan_devices_throttled[of sc w] by blast
  have 4: "\<not> due MIN_TIME_BETWEEN_SCANS (nmap_throttle nsc) (clock w) \<longrightarrow>
        nmap_scan_devices nsc w = (Inr (map mac (nmap_last_results nsc)), nsc, w)"
    using nmap_scan_devices_throttled[of nsc w] by blast
  have 5: "lastRefreshAt (throttle sc) = None \<and> success_init sc \<longrightarrow>
        length (sent (snd (ddwrt_calls [t, t + 1000000] (sc, w)))) = length (sent w) + 1
        \<and> length (sent (snd (ddwrt_calls [t, t + 6000000] (sc, w)))) = length (sent w) + 2"
    using ddwrt_two_calls[of sc t w] by blast
  have 6: "lastRefreshAt (nmap_throttle nsc) = None \<longrightarrow>
        length (made (snd (nmap_calls [t, t + 1000000] (nsc, w)))) = length (made w) + 1
        \<and> length (made (snd (nmap_calls [t, t + 6000000] (nsc, w)))) = length (made w) + 2"
    using nmap_two_calls[of nsc t w] by blast
  have 7: "lastRefreshAt (nmap_throttle nsc) = None \<and> (\<forall>n. scanner_new w n = None) \<longrightarrow>
        length (probes (snd (nmap_calls [t, t + 1000000] (nsc, w)))) = length (probes w) + 1
        \<and> length (probes (snd (nmap_calls [t, t + 6000000] (nsc, w)))) = length (probes w) + 2"
    using nmap_two_calls[of nsc t w] by blast
  show ?thesis
    by (intro conjI; (fact 1 2 3 4 5 6 7 8 MIN_TIME_BETWEEN_SCANS_def))
qed

definition refreshed_router :: ddwrt_scanner where
  \<comment> \<open>the scanner after a refresh at time 0\<close>
  "refreshed_router = home_router\<lparr>throttle := \<lparr>lastRefreshAt = Some 0, lastStatus = True\<rparr>\<rparr>"

definition refreshed_sweep :: nmap_scanner where
  "refreshed_sweep = sweep_home\<lparr>nmap_throttle := \<lparr>lastRefreshAt = Some 0, lastStatus = True\<rparr>\<rparr>"

definition one_second_later :: world where
  "one_second_later = (router_world (Response 401 []))\<lparr>clock := 1000000\<rparr>"

lemma ddwrt_five_calls:
  "map fst (sent (snd (ddwrt_calls [0, 1000000, 6000000, 7000000, 12000000]
      (home_router, router_world (Response 401 [])))))
   = [0, 6000000, 12000000]"
  by (simp add: scan_devices_def update_info_def update_info_body_def get_ddwrt_data_def
      home_router_def router_world_def throttle_init_def due_def MIN_TIME_BETWEEN_SCANS_def
      wireless_url_def Let_def)

theorem throttle_spacing_witness:
  "sent (router_world (Response 401 [])) = []
   \<and> map fst (sent (snd (ddwrt_calls [0, 1000000, 6000000, 7000000, 12000000]
        (home_router, router_world (Response 401 [])))))
      = [0, 6000000, 12000000]
   \<and> spaced MIN_TIME_BETWEEN_SCANS [0, 6000000, 12000000]
   \<and> probes sweep_world = [] \<and> made sweep_world = []
   \<and> spaced MIN_TIME_BETWEEN_SCANS
        (map fst (probes (snd (nmap_calls [0, 1000000, 6000000, 7000000, 12000000]
           (sweep_home, sweep_world)))))
   \<and> spaced MIN_TIME_BETWEEN_SCANS
        (made (snd (nmap_calls [0, 1000000, 6000000, 7000000, 12000000] (sweep_home, sweep_world))))
   \<and> lastRefreshAt (throttle home_router) = None \<and> success_init home_router
   \<and> length (sent (snd (ddwrt_calls [0, 0 + 1000000] (home_router, router_world (Response 401 []))))) = 1
   \<and> length (sent (snd (ddwrt_calls [0, 0 + 6000000] (home_router, router_world (Response 401 []))))) = 2
   \<and> lastRefreshAt (nmap_throttle sweep_home) = None
   \<and> scanner_new sweep_world = (\<lambda>n. None)
   \<and> length (made (snd (nmap_calls [0, 0 + 1000000] (sweep_home, sweep_world)))) = 1
   \<and> length (made (snd (nmap_calls [0, 0 + 6000000] (sweep_home, sweep_world)))) = 2
   \<and> length (probes (snd (nmap_calls [0, 0 + 1000000] (sweep_home, sweep_world)))) = 1
   \<and> length (probes (snd (nmap_calls [0, 0 + 6000000] (sweep_home, sweep_world)))) = 2
   \<and> due MIN_TIME_BETWEEN_SCANS (throttle refreshed_router) (clock one_second_later) = False
   \<and> scan_devices refreshed_router one_second_later
      = (Inr [''AA:BB:CC:DD:EE:FF'', ''11:22:33:44:55:66''], refreshed_router, one_second_later)
   \<and> due MIN_TIME_BETWEEN_SCANS (nmap_throttle refreshed_sweep) (clock one_second_later) = False
   \<and> nmap_scan_devices refreshed_sweep one_second_later
      = (Inr [''AA:BB:CC:DD:EE:FF''], refreshed_sweep, one_second_later)"
proof -
  let ?w = "router_world (Response 401 [])"
  let ?ts = "[0, 1000000, 6000000, 7000000, 12000000]"
  note t1 = throttle_spacing[where w = ?w and ts = ?ts and sc = home_router and nsc = sweep_home
      and t = 0]
  note t2 = throttle_spacing[where w = sweep_world and ts = ?ts and sc = home_router
      and nsc = sweep_home and t = 0]
  note t3 = throttle_spacing[where w = one_second_later and ts = ?ts and sc = refreshed_router
      and nsc = refreshed_sweep and t = 0]
  have e: "sent ?w = [] \<and> probes sweep_world = [] \<and> made sweep_world = []"
    by (simp add: router_world_def sweep_world_def)
  have f: "lastRefreshAt (throttle home_router) = None \<and> success_init home_router
           \<and> lastRefreshAt (nmap_throttle sweep_home) = None"
    by (simp add: home_router_def sweep_home_def throttle_init_def)
  have sn: "scanner_new sweep_world = (\<lambda>n. None)"
    by (simp add: sweep_world_def)
  have d: "due MIN_TIME_BETWEEN_SCANS (throttle refreshed_router) (clock one_second_later) = False
           \<and> due MIN_TIME_BETWEEN_SCANS (nmap_throttle refreshed_sweep) (clock one_second_later) = False"
    by (simp add: refreshed_router_def refreshed_sweep_def one_second_later_def due_after)
  have l: "last_results refreshed_router = [''AA:BB:CC:DD:EE:FF'', ''11:22:33:44:55:66'']
           \<and> map mac (nmap_last_results refreshed_sweep) = [''AA:BB:CC:DD:EE:FF'']"
    by (simp add: refreshed_router_def refreshed_sweep_def home_router_def sweep_home_def
        phone_record_def)
  have s1: "spaced MIN_TIME_BETWEEN_SCANS (map fst (sent (snd (ddwrt_calls ?ts (home_router, ?w)))))"
    using t1 e by simp
  have s2: "spaced MIN_TIME_BETWEEN_SCANS (map fst (probes (snd (nmap_calls ?ts (sweep_home, sweep_world)))))
            \<and> spaced MIN_TIME_BETWEEN_SCANS (made (snd (nmap_calls ?ts (sweep_home, sweep_world))))"
    using t2 e by simp
  have c1: "length (sent (snd (ddwrt_calls [0, 0 + 1000000] (home_router, ?w)))) = length (sent ?w) + 1
            \<and> length (sent (snd (ddwrt_calls [0, 0 + 6000000] (home_router, ?w)))) = length (sent ?w) + 2"
    using t1 f by simp
  have c2: "length (made (snd (nmap_calls [0, 0 + 1000000] (sweep_home, sweep_world))))
              = length (made sweep_world) + 1
            \<and> length (made (snd (nmap_calls [0, 0 + 6000000] (sweep_home, sweep_world))))
              = length (made sweep_world) + 2
            \<and> length (probes (snd (nmap_calls [0, 0 + 1000000] (sweep_home, sweep_world))))
              = length (probes sweep_world) + 1
            \<and> length (probes (snd (nmap_calls [0, 0 + 6000000] (sweep_home, sweep_world))))
              = length (probes sweep_world) + 2"
    using t2 f sn by simp
  have r1: "scan_devices refreshed_router one_second_later
            = (Inr (last_results refreshed_router), refreshed_router, one_second_later)"
    using t3 d by simp
  have r2: "nmap_scan_devices refreshed_sweep one_second_later
            = (Inr (map mac (nmap_last_results refreshed_sweep)), refreshed_sweep, one_second_later)"
    using t3 d by simp
  show ?thesis
    using e f sn d l s1 s2 c1 c2 r1 r2 ddwrt_five_calls by simp
qed

end
